theory Spec2Isabelle
  imports Main
begin

section \<open>Data model\<close>

text \<open>
  The tic-tac-toe component stores a board as a JavaScript array of nine cells; a cell is
  \<^verbatim>\<open>null\<close> (empty, falsy) or one of the strings \<^verbatim>\<open>"X"\<close>, \<^verbatim>\<open>"O"\<close> (truthy).
  The two strings are \<open>MarkX\<close> and \<open>MarkO\<close>; a cell is modelled as \<open>mark option\<close> with
  \<open>None\<close> for \<^verbatim>\<open>null\<close>, a board as the list of its cells. Every theorem below is about
  boards of exactly nine cells, on which each index \<open>0..8\<close> read or written by the code is
  in range.
\<close>

datatype mark = MarkX | MarkO

type_synonym cell = "mark option"

type_synonym board = "cell list"

text \<open>JavaScript truthiness of a cell (\<^verbatim>\<open>Boolean(c)\<close>, \<^verbatim>\<open>!c\<close>, \<^verbatim>\<open>c && ...\<close>).\<close>

definition truthy :: "cell \<Rightarrow> bool" where
  "truthy c = (c \<noteq> None)"

text \<open>
  What \<^verbatim>\<open>checkWinner\<close> returns: \<^verbatim>\<open>{winner: board[a], line: [a, b, c]}\<close> is \<open>Win\<close>,
  \<^verbatim>\<open>{winner: "draw"}\<close> is \<open>Draw\<close>, and \<^verbatim>\<open>null\<close> is \<open>InProgress\<close>.
\<close>

datatype verdict = Win mark "nat list" | Draw | InProgress

text \<open>
  What the inner \<^verbatim>\<open>winnerCheck\<close> of \<^verbatim>\<open>bestMove\<close> returns: the mark \<^verbatim>\<open>b[a]\<close>, the string
  \<^verbatim>\<open>"draw"\<close>, or \<^verbatim>\<open>null\<close>.
\<close>

datatype wres = Mark mark | DrawStr | Null

section \<open>The board evaluator\<close>

definition LINES :: "(nat \<times> nat \<times> nat) list" where
  "LINES = [(0, 1, 2), (3, 4, 5), (6, 7, 8), (0, 3, 6), (1, 4, 7), (2, 5, 8), (0, 4, 8), (2, 4, 6)]"

text \<open>
  The \<^verbatim>\<open>for (const [a, b, c] of LINES)\<close> loop of \<^verbatim>\<open>checkWinner\<close> over the lines that are
  still to be visited; the empty list is the code after the loop.
\<close>

fun checkWinner_from :: "(nat \<times> nat \<times> nat) list \<Rightarrow> board \<Rightarrow> verdict" where
  "checkWinner_from [] board = (if list_all truthy board then Draw else InProgress)"
| "checkWinner_from ((a, b, c) # ls) board =
     (if truthy (board ! a) \<and> board ! a = board ! b \<and> board ! a = board ! c
      then (case board ! a of Some m \<Rightarrow> Win m [a, b, c] | None \<Rightarrow> checkWinner_from ls board)
      else checkWinner_from ls board)"

definition checkWinner :: "board \<Rightarrow> verdict" where
  "checkWinner board = checkWinner_from LINES board"

text \<open>
  The function \<^verbatim>\<open>winnerCheck\<close> declared inside \<^verbatim>\<open>bestMove\<close>: the same loop, returning
  the mark instead of an object.
\<close>

fun winnerCheck_from :: "(nat \<times> nat \<times> nat) list \<Rightarrow> board \<Rightarrow> wres" where
  "winnerCheck_from [] b = (if list_all truthy b then DrawStr else Null)"
| "winnerCheck_from ((a, b1, c) # ls) b =
     (if truthy (b ! a) \<and> b ! a = b ! b1 \<and> b ! a = b ! c
      then (case b ! a of Some m \<Rightarrow> Mark m | None \<Rightarrow> winnerCheck_from ls b)
      else winnerCheck_from ls b)"

definition winnerCheck :: "board \<Rightarrow> wres" where
  "winnerCheck b = winnerCheck_from LINES b"

section \<open>The optimal-move searcher\<close>

text \<open>
  JavaScript arrays are references: \<^verbatim>\<open>minimax\<close> writes into the array it is given, and
  \<^verbatim>\<open>bestMove\<close> hands it a copy \<^verbatim>\<open>[...board]\<close> of the caller's array. The store holds
  every array that is alive; an array reference is its position in the store, and
  allocating an array appends it.
\<close>

type_synonym store = "board list"

text \<open>
  \<^verbatim>\<open>TypeError\<close> is what JavaScript throws when a property of \<^verbatim>\<open>undefined\<close> is read.
  \<open>OutOfFuel\<close> is not a JavaScript error: it marks that the recursion bound given to the
  model was reached before the search returned.
\<close>

datatype error = TypeError | OutOfFuel

text \<open>
  The objects the search returns: \<^verbatim>\<open>{ score }\<close> at a finished board (\<^verbatim>\<open>i\<close> is then
  \<^verbatim>\<open>undefined\<close>, here \<open>None\<close>) and \<^verbatim>\<open>{ i, score }\<close> otherwise.
\<close>

datatype res = Res (idx: "nat option") (score: int)

text \<open>\<^verbatim>\<open>const opponent = player === "X" ? "O" : "X"\<close>\<close>

definition opponent :: "mark \<Rightarrow> mark" where
  "opponent player = (if player = MarkX then MarkO else MarkX)"

text \<open>
  \<^verbatim>\<open>let best = scores[0]; for (const s of scores) if (s.score > best.score) best = s;\<close>
  With no scores, \<^verbatim>\<open>best\<close> is \<^verbatim>\<open>undefined\<close>, the loop body never runs and
  \<^verbatim>\<open>undefined\<close> is returned (\<open>None\<close>).
\<close>

definition maximize :: "res list \<Rightarrow> res option" where
  "maximize scores =
     (case scores of
        [] \<Rightarrow> None
      | s0 # _ \<Rightarrow> Some (foldl (\<lambda>best s. if score s > score best then s else best) s0 scores))"

definition minimize :: "res list \<Rightarrow> res option" where
  "minimize scores =
     (case scores of
        [] \<Rightarrow> None
      | s0 # _ \<Rightarrow> Some (foldl (\<lambda>best s. if score s < score best then s else best) s0 scores))"

text \<open>
  \<^verbatim>\<open>minimax(bd, turn)\<close> with its \<^verbatim>\<open>for (let i = 0; i < 9; i++)\<close> loop as \<open>explore\<close>, which
  carries the loop counter and the \<^verbatim>\<open>scores\<close> collected so far. \<open>bd\<close> is the reference of
  the working array in the store; \<open>player\<close> is the variable of the enclosing \<^verbatim>\<open>bestMove\<close>.
  The first argument bounds the depth of the recursion: \<open>minimax 0\<close> gives up. Both
  functions return the store as they leave it, also when an error is raised.
\<close>

function minimax :: "nat \<Rightarrow> mark \<Rightarrow> store \<Rightarrow> nat \<Rightarrow> mark \<Rightarrow> (error + res option) \<times> store"
  and explore :: "nat \<Rightarrow> mark \<Rightarrow> store \<Rightarrow> nat \<Rightarrow> mark \<Rightarrow> nat \<Rightarrow> res list \<Rightarrow> (error + res list) \<times> store"
where
  "minimax 0 player s bd turn = (Inl OutOfFuel, s)"
| "minimax (Suc n) player s bd turn =
     (let r = winnerCheck (s ! bd) in
      if r = Mark player then (Inr (Some (Res None 1)), s)
      else if r = Mark (opponent player) then (Inr (Some (Res None (- 1))), s)
      else if r = DrawStr then (Inr (Some (Res None 0)), s)
      else (case explore n player s bd turn 0 [] of
              (Inl e, s') \<Rightarrow> (Inl e, s')
            | (Inr scores, s') \<Rightarrow>
                (Inr (if turn = player then maximize scores else minimize scores), s')))"
| "explore n player s bd turn i scores =
     (if i < 9 then
        (if \<not> truthy (s ! bd ! i) then
           (case minimax n player (s[bd := (s ! bd)[i := Some turn]]) bd
                   (if turn = player then opponent player else player) of
              (Inl e, s2) \<Rightarrow> (Inl e, s2)
            | (Inr None, s2) \<Rightarrow> (Inl TypeError, s2)
            | (Inr (Some r), s2) \<Rightarrow>
                explore n player (s2[bd := (s2 ! bd)[i := None]]) bd turn (Suc i)
                  (scores @ [Res (Some i) (score r)]))
         else explore n player s bd turn (Suc i) scores)
      else (Inr scores, s))"
  by pat_completeness auto
termination
  by (relation "measure (\<lambda>x. case x of
          Inl (n, player, s, bd, turn) \<Rightarrow> 11 * n
        | Inr (n, player, s, bd, turn, i, scores) \<Rightarrow> 11 * n + (10 - i))") auto

text \<open>
  \<^verbatim>\<open>return minimax([...board], player).i\<close>. The argument \<open>board\<close> is the reference of
  the caller's array; the copy is a new array at the end of the store, and reading \<^verbatim>\<open>.i\<close>
  of \<^verbatim>\<open>undefined\<close> would raise. Ten levels are given to the recursion; theorem
  \<open>evaluator_and_search_return\<close> shows that a board of nine cells never needs more.
\<close>

definition bestMove :: "store \<Rightarrow> nat \<Rightarrow> mark \<Rightarrow> (error + nat option) \<times> store" where
  "bestMove s board player =
     (case minimax 10 player (s @ [s ! board]) (length s) player of
        (Inl e, s2) \<Rightarrow> (Inl e, s2)
      | (Inr None, s2) \<Rightarrow> (Inl TypeError, s2)
      | (Inr (Some r), s2) \<Rightarrow> (Inr (idx r), s2))"

section \<open>Notions used to state the properties\<close>

text \<open>A line is completed by mark \<open>m\<close>: its three cells all hold \<open>m\<close>.\<close>

fun completed :: "board \<Rightarrow> mark \<Rightarrow> nat \<times> nat \<times> nat \<Rightarrow> bool" where
  "completed board m (a, b, c) = (board ! a = Some m \<and> board ! b = Some m \<and> board ! c = Some m)"

fun line_cells :: "nat \<times> nat \<times> nat \<Rightarrow> nat list" where
  "line_cells (a, b, c) = [a, b, c]"

text \<open>The number of empty cells of a board, and the empty cells in ascending order.\<close>

definition empties :: "board \<Rightarrow> nat" where
  "empties b = length (filter (\<lambda>c. c = None) b)"

definition frees :: "board \<Rightarrow> nat list" where
  "frees b = filter (\<lambda>i. i < length b \<and> b ! i = None) [0..<9]"

text \<open>
  The result of a finished game seen from side \<open>p\<close>: \<open>1\<close> for a win of \<open>p\<close>, \<open>- 1\<close> for
  a win of the other side, \<open>0\<close> for a draw.
\<close>

fun outcome :: "mark \<Rightarrow> verdict \<Rightarrow> int" where
  "outcome p (Win m l) = (if m = p then 1 else - 1)"
| "outcome p Draw = 0"
| "outcome p InProgress = 0"

text \<open>
  The game-theoretic notion the searcher is measured against. The two sides place their
  marks in turn on empty cells until \<open>checkWinner\<close> gives a verdict. \<open>secures p k b t\<close>:
  on board \<open>b\<close> with side \<open>t\<close> to move, side \<open>p\<close> has a strategy whose result is at least
  \<open>k\<close> whatever the other side plays. So \<open>secures p 1\<close> is a forced win for \<open>p\<close> and
  \<open>secures p 0\<close> says that \<open>p\<close> can hold at least a draw.
\<close>

function secures :: "mark \<Rightarrow> int \<Rightarrow> board \<Rightarrow> mark \<Rightarrow> bool" where
  "secures p k b t =
     (if checkWinner b = InProgress
      then (if t = p then (\<exists>i\<in>set (frees b). secures p k (b[i := Some t]) (opponent t))
            else (\<forall>i\<in>set (frees b). secures p k (b[i := Some t]) (opponent t)))
      else k \<le> outcome p (checkWinner b))"
  by pat_completeness auto
termination
proof -
  have less: "empties (c[j := Some u]) < empties c" if "j < length c" and "c ! j = None"
    for c :: board and j u
    using that
  proof (induction c arbitrary: j)
    case Nil
    then show ?case by simp
  next
    case (Cons x c)
    then show ?case by (cases j) (auto simp: empties_def)
  qed
  show ?thesis
    by (relation "measure (\<lambda>(p, k, b, t). empties b)") (auto simp: frees_def less)
qed

text \<open>
  The score the search gives to cell \<open>j\<close> of board \<open>b\<close> at the root: the board with the
  mark of \<open>player\<close> placed at \<open>j\<close> is searched with the other side to move, as the loop of
  \<^verbatim>\<open>minimax\<close> does for every empty cell.
\<close>

definition cellScore :: "mark \<Rightarrow> board \<Rightarrow> nat \<Rightarrow> int option" where
  "cellScore player b j =
     (case fst (minimax 10 player [b[j := Some player]] 0 (opponent player)) of
        Inr (Some r) \<Rightarrow> Some (score r)
      | _ \<Rightarrow> None)"

text \<open>
  Replaying a game in which side \<open>p\<close> always places its mark where \<open>bestMove\<close> says and
  the other side places its mark on any empty cell. A state is the board and the side
  to move; no move is made once \<open>checkWinner\<close> has given a verdict.
\<close>

inductive replay :: "mark \<Rightarrow> board \<times> mark \<Rightarrow> board \<times> mark \<Rightarrow> bool" for p :: mark where
  searcher: "checkWinner b = InProgress \<Longrightarrow> fst (bestMove [b] 0 p) = Inr (Some i) \<Longrightarrow>
     replay p (b, p) (b[i := Some p], opponent p)"
| other: "checkWinner b = InProgress \<Longrightarrow> i < 9 \<Longrightarrow> b ! i = None \<Longrightarrow>
     replay p (b, opponent p) (b[i := Some (opponent p)], p)"

text \<open>Self-play: whoever is to move places its mark where \<open>bestMove\<close> says for that side.\<close>

inductive selfplay :: "board \<times> mark \<Rightarrow> board \<times> mark \<Rightarrow> bool" where
  "checkWinner b = InProgress \<Longrightarrow> fst (bestMove [b] 0 t) = Inr (Some i) \<Longrightarrow>
     selfplay (b, t) (b[i := Some t], opponent t)"

section \<open>The search as a function of the board alone\<close>

text \<open>
  For the proofs, the result of \<^verbatim>\<open>minimax\<close> is described without the store: \<open>search\<close>
  follows the same steps on a board value, and \<open>child\<close> is the entry that the loop pushes
  for an empty cell. \<open>minimax_refines\<close> below shows that \<open>minimax\<close> computes \<open>search\<close>.
\<close>

function search :: "mark \<Rightarrow> board \<Rightarrow> mark \<Rightarrow> res option" where
  "search p b t =
     (let r = winnerCheck b in
      if r = Mark p then Some (Res None 1)
      else if r = Mark (opponent p) then Some (Res None (- 1))
      else if r = DrawStr then Some (Res None 0)
      else (let scores = map (\<lambda>i. Res (Some i)
                  (case search p (b[i := Some t]) (if t = p then opponent p else p) of
                     Some r \<Rightarrow> score r | None \<Rightarrow> 0)) (frees b)
            in if t = p then maximize scores else minimize scores))"
  by pat_completeness auto
termination
proof -
  have less: "empties (c[j := Some u]) < empties c" if "j < length c" and "c ! j = None"
    for c :: board and j u
    using that
  proof (induction c arbitrary: j)
    case Nil
    then show ?case by simp
  next
    case (Cons x c)
    then show ?case by (cases j) (auto simp: empties_def)
  qed
  show ?thesis
    by (relation "measure (\<lambda>(p, b, t). empties b)") (auto simp: frees_def less)
qed

definition child :: "mark \<Rightarrow> board \<Rightarrow> mark \<Rightarrow> nat \<Rightarrow> res" where
  "child p b t = (\<lambda>i. Res (Some i)
     (case search p (b[i := Some t]) (if t = p then opponent p else p) of
        Some r \<Rightarrow> score r | None \<Rightarrow> 0))"

text \<open>
  A checker for \<open>secures\<close> that stops at the first cell that settles the question, so that
  it can be evaluated on the empty board. It tries the cells in the order \<open>try_order\<close> and
  is given the depth it may use.
\<close>

fun any_lazy :: "(nat \<Rightarrow> bool) \<Rightarrow> nat list \<Rightarrow> bool" where
  "any_lazy P [] = False"
| "any_lazy P (x # xs) = (if P x then True else any_lazy P xs)"

fun all_lazy :: "(nat \<Rightarrow> bool) \<Rightarrow> nat list \<Rightarrow> bool" where
  "all_lazy P [] = True"
| "all_lazy P (x # xs) = (if P x then all_lazy P xs else False)"

definition try_order :: "nat list" where
  "try_order = [4, 0, 2, 6, 8, 1, 3, 5, 7]"

fun sec_check :: "nat \<Rightarrow> mark \<Rightarrow> int \<Rightarrow> board \<Rightarrow> mark \<Rightarrow> bool" where
  "sec_check 0 p k b t = False"
| "sec_check (Suc n) p k b t =
     (case winnerCheck b of
        Mark m \<Rightarrow> k \<le> (if m = p then 1 else - 1)
      | DrawStr \<Rightarrow> k \<le> 0
      | Null \<Rightarrow>
          (if t = p
           then any_lazy (\<lambda>i. if b ! i = None then sec_check n p k (b[i := Some t]) (opponent t) else False) try_order
           else all_lazy (\<lambda>i. if b ! i = None then sec_check n p k (b[i := Some t]) (opponent t) else True) try_order))"

section \<open>Example boards\<close>

text \<open>
  The boards at which the theorems are instantiated: one with two equally good cells, a won
  one, a full drawn one, the board of claim C8 for either mark, a board holding a completed
  line of each mark, and the empty board.
\<close>

definition board_tie :: board where
  "board_tie = [None, None, Some MarkX, Some MarkX, Some MarkO, None, Some MarkO, Some MarkO, Some MarkX]"

definition board_won :: board where
  "board_won = [Some MarkX, Some MarkX, Some MarkX, Some MarkO, Some MarkO, None, None, None, None]"

definition board_full :: board where
  "board_full = [Some MarkX, Some MarkO, Some MarkX, Some MarkX, Some MarkO, Some MarkO, Some MarkO, Some MarkX, Some MarkX]"

definition board_threat :: "mark \<Rightarrow> board" where
  "board_threat A = [Some A, None, None, Some (opponent A), Some (opponent A), None, None, None, None]"

definition board_twice :: board where
  "board_twice = [Some MarkX, Some MarkX, Some MarkX, Some MarkO, Some MarkO, Some MarkO, None, None, None]"

definition board_empty :: board where
  "board_empty = [None, None, None, None, None, None, None, None, None]"

section \<open>Empty cells\<close>

lemma empties_update:
  "i < length b \<Longrightarrow> b ! i = None \<Longrightarrow> empties (b[i := Some t]) < empties b"
proof (induction b arbitrary: i)
  case Nil
  then show ?case by simp
next
  case (Cons c b)
  then show ?case by (cases i) (auto simp: empties_def)
qed

lemma empties_le: "empties b \<le> length b"
  by (simp add: empties_def)

lemma in_frees: "i \<in> set (frees b) \<longleftrightarrow> i < 9 \<and> i < length b \<and> b ! i = None"
  by (auto simp: frees_def)

section \<open>Properties of the evaluator\<close>

lemma checkWinner_from_first:
  "k < length ls \<Longrightarrow> completed board m (ls ! k) \<Longrightarrow>
   \<forall>j<k. \<forall>m'. \<not> completed board m' (ls ! j) \<Longrightarrow>
   checkWinner_from ls board = Win m (line_cells (ls ! k))"
proof (induction ls arbitrary: k)
  case Nil
  then show ?case by simp
next
  case (Cons l ls)
  obtain a b c where l: "l = (a, b, c)" by (cases l) auto
  show ?case
  proof (cases k)
    case 0
    with Cons.prems l show ?thesis by (simp add: truthy_def)
  next
    case (Suc k')
    from Cons.prems(3) Suc have "\<forall>m'. \<not> completed board m' ((l # ls) ! 0)" by blast
    then have no: "\<not> (truthy (board ! a) \<and> board ! a = board ! b \<and> board ! a = board ! c)"
      using l by (cases "board ! a") (auto simp: truthy_def)
    have "checkWinner_from ls board = Win m (line_cells (ls ! k'))"
    proof (rule Cons.IH)
      show "k' < length ls" using Cons.prems(1) Suc by simp
      show "completed board m (ls ! k')" using Cons.prems(2) Suc by simp
      show "\<forall>j<k'. \<forall>m'. \<not> completed board m' (ls ! j)"
      proof (intro allI impI)
        fix j m' assume "j < k'"
        then have "Suc j < k" using Suc by simp
        with Cons.prems(3) have "\<not> completed board m' ((l # ls) ! Suc j)" by blast
        then show "\<not> completed board m' (ls ! j)" by simp
      qed
    qed
    moreover from no have "checkWinner_from ((a, b, c) # ls) board = checkWinner_from ls board"
      by (subst checkWinner_from.simps) (rule if_not_P)
    ultimately show ?thesis using l Suc by simp
  qed
qed

lemma checkWinner_from_none:
  "\<forall>l\<in>set ls. \<forall>m. \<not> completed board m l \<Longrightarrow>
   checkWinner_from ls board = (if list_all truthy board then Draw else InProgress)"
proof (induction ls)
  case Nil
  then show ?case by simp
next
  case (Cons l ls)
  obtain a b c where l: "l = (a, b, c)" by (cases l) auto
  from Cons.prems have "\<forall>m. \<not> completed board m (a, b, c)" using l by simp
  then have "\<not> (truthy (board ! a) \<and> board ! a = board ! b \<and> board ! a = board ! c)"
    by (cases "board ! a") (auto simp: truthy_def)
  then have "checkWinner_from ((a, b, c) # ls) board = checkWinner_from ls board"
    by (subst checkWinner_from.simps) (rule if_not_P)
  moreover have "checkWinner_from ls board = (if list_all truthy board then Draw else InProgress)"
    using Cons by simp
  ultimately show ?case using l by simp
qed

lemma first_completed_exists:
  "\<exists>l\<in>set ls. \<exists>m. completed board m l \<Longrightarrow>
   \<exists>k<length ls. (\<exists>m. completed board m (ls ! k)) \<and> (\<forall>j<k. \<forall>m'. \<not> completed board m' (ls ! j))"
proof -
  assume ex: "\<exists>l\<in>set ls. \<exists>m. completed board m l"
  let ?P = "\<lambda>k. k < length ls \<and> (\<exists>m. completed board m (ls ! k))"
  from ex have "\<exists>k. ?P k" by (metis in_set_conv_nth)
  then obtain k where k: "?P k" and least: "\<forall>j<k. \<not> ?P j"
    using exists_least_iff [of ?P] by blast
  have "\<forall>j<k. \<forall>m'. \<not> completed board m' (ls ! j)"
  proof (intro allI impI)
    fix j m' assume "j < k"
    with least k have "\<not> ?P j" and "j < length ls" by auto
    then show "\<not> completed board m' (ls ! j)" by blast
  qed
  with k show ?thesis by blast
qed

section \<open>Selecting the best score\<close>

lemma foldl_max_first:
  fixes b0 :: res
  defines "f \<equiv> (\<lambda>best s. if score s > score best then s else best)"
  shows "(foldl f b0 xs = b0 \<and> (\<forall>x\<in>set xs. score x \<le> score b0)) \<or>
         (\<exists>k<length xs. foldl f b0 xs = xs ! k \<and> score b0 < score (xs ! k) \<and>
            (\<forall>j<k. score (xs ! j) < score (xs ! k)) \<and> (\<forall>x\<in>set xs. score x \<le> score (xs ! k)))"
proof (induction xs rule: rev_induct)
  case Nil
  then show ?case by simp
next
  case (snoc x xs)
  let ?r = "foldl f b0 xs"
  have step: "foldl f b0 (xs @ [x]) = (if score x > score ?r then x else ?r)"
    by (simp add: f_def)
  from snoc consider
      (init) "?r = b0" "\<forall>y\<in>set xs. score y \<le> score b0"
    | (at) k where "k < length xs" "?r = xs ! k" "score b0 < score (xs ! k)"
        "\<forall>j<k. score (xs ! j) < score (xs ! k)" "\<forall>y\<in>set xs. score y \<le> score (xs ! k)"
    by blast
  then show ?case
  proof cases
    case init
    show ?thesis
    proof (cases "score x > score ?r")
      case True
      have "\<forall>j<length xs. score (xs ! j) \<le> score b0"
        using init by simp
      then have "\<forall>j<length xs. score ((xs @ [x]) ! j) < score x"
        using init True by (fastforce simp: nth_append)
      moreover have "\<forall>y\<in>set (xs @ [x]). score y \<le> score x"
        using init True by auto
      ultimately have "length xs < length (xs @ [x]) \<and> foldl f b0 (xs @ [x]) = (xs @ [x]) ! length xs \<and>
          score b0 < score ((xs @ [x]) ! length xs) \<and>
          (\<forall>j<length xs. score ((xs @ [x]) ! j) < score ((xs @ [x]) ! length xs)) \<and>
          (\<forall>y\<in>set (xs @ [x]). score y \<le> score ((xs @ [x]) ! length xs))"
        using step True init by simp
      then show ?thesis by blast
    next
      case False
      then show ?thesis using step init by auto
    qed
  next
    case at
    show ?thesis
    proof (cases "score x > score ?r")
      case True
      have "\<forall>j<length xs. score (xs ! j) \<le> score (xs ! k)"
        using at by simp
      then have "\<forall>j<length xs. score ((xs @ [x]) ! j) < score x"
        using at True by (fastforce simp: nth_append)
      moreover have "\<forall>y\<in>set (xs @ [x]). score y \<le> score x"
        using at True by auto
      moreover have "score b0 < score x" using at True by simp
      ultimately have "length xs < length (xs @ [x]) \<and> foldl f b0 (xs @ [x]) = (xs @ [x]) ! length xs \<and>
          score b0 < score ((xs @ [x]) ! length xs) \<and>
          (\<forall>j<length xs. score ((xs @ [x]) ! j) < score ((xs @ [x]) ! length xs)) \<and>
          (\<forall>y\<in>set (xs @ [x]). score y \<le> score ((xs @ [x]) ! length xs))"
        using step True by simp
      then show ?thesis by blast
    next
      case False
      have "k < length (xs @ [x]) \<and> foldl f b0 (xs @ [x]) = (xs @ [x]) ! k \<and>
          score b0 < score ((xs @ [x]) ! k) \<and>
          (\<forall>j<k. score ((xs @ [x]) ! j) < score ((xs @ [x]) ! k)) \<and>
          (\<forall>y\<in>set (xs @ [x]). score y \<le> score ((xs @ [x]) ! k))"
        using step False at by (auto simp: nth_append)
      then show ?thesis by blast
    qed
  qed
qed

lemma maximize_first:
  assumes "rs \<noteq> []"
  shows "\<exists>k<length rs. maximize rs = Some (rs ! k) \<and>
           (\<forall>j<k. score (rs ! j) < score (rs ! k)) \<and> (\<forall>x\<in>set rs. score x \<le> score (rs ! k))"
proof -
  from assms obtain s0 rest where rs: "rs = s0 # rest" by (cases rs) auto
  let ?f = "\<lambda>best s. if score s > score best then s else best"
  have m: "maximize rs = Some (foldl ?f s0 rs)" by (simp add: maximize_def rs)
  from foldl_max_first [of s0 rs] show ?thesis
  proof (elim disjE conjE exE)
    assume "foldl ?f s0 rs = s0" and "\<forall>x\<in>set rs. score x \<le> score s0"
    then have "0 < length rs \<and> maximize rs = Some (rs ! 0) \<and>
           (\<forall>j<0. score (rs ! j) < score (rs ! 0)) \<and> (\<forall>x\<in>set rs. score x \<le> score (rs ! 0))"
      using m rs by simp
    then show ?thesis by blast
  next
    fix k assume "k < length rs" "foldl ?f s0 rs = rs ! k"
      "\<forall>j<k. score (rs ! j) < score (rs ! k)" "\<forall>x\<in>set rs. score x \<le> score (rs ! k)"
    then show ?thesis using m by auto
  qed
qed

lemma foldl_min_least:
  fixes b0 :: res
  defines "f \<equiv> (\<lambda>best s. if score s < score best then s else best)"
  shows "foldl f b0 xs \<in> insert b0 (set xs) \<and> score (foldl f b0 xs) \<le> score b0 \<and>
         (\<forall>x\<in>set xs. score (foldl f b0 xs) \<le> score x)"
proof (induction xs rule: rev_induct)
  case Nil
  then show ?case by simp
next
  case (snoc x xs)
  have "foldl f b0 (xs @ [x]) = (if score x < score (foldl f b0 xs) then x else foldl f b0 xs)"
    by (simp add: f_def)
  with snoc show ?case by (cases "score x < score (foldl f b0 xs)") fastforce+
qed

lemma minimize_least:
  assumes "rs \<noteq> []"
  shows "\<exists>r\<in>set rs. minimize rs = Some r \<and> (\<forall>x\<in>set rs. score r \<le> score x)"
proof -
  from assms obtain s0 rest where rs: "rs = s0 # rest" by (cases rs) auto
  let ?f = "\<lambda>best s. if score s < score best then s else best"
  have "minimize rs = Some (foldl ?f s0 rs)" by (simp add: minimize_def rs)
  moreover have "foldl ?f s0 rs \<in> set rs" "\<forall>x\<in>set rs. score (foldl ?f s0 rs) \<le> score x"
    using foldl_min_least [of s0 rs] rs by auto
  ultimately show ?thesis by blast
qed

section \<open>The search restores the board and computes the pure search\<close>

declare minimax.simps [simp del] explore.simps [simp del] search.simps [simp del] secures.simps [simp del]

lemma search_unfold:
  "search p b t =
     (let r = winnerCheck b in
      if r = Mark p then Some (Res None 1)
      else if r = Mark (opponent p) then Some (Res None (- 1))
      else if r = DrawStr then Some (Res None 0)
      else (if t = p then maximize (map (child p b t) (frees b))
            else minimize (map (child p b t) (frees b))))"
  by (subst search.simps) (simp add: child_def Let_def)

lemma opponent_neq: "opponent p \<noteq> p"
  by (cases p) (simp_all add: opponent_def)

lemma mark_cases: "m = p \<or> m = opponent p"
  by (cases p; cases m) (simp_all add: opponent_def)

lemma winnerCheck_from_Null: "winnerCheck_from ls b = Null \<Longrightarrow> \<not> list_all truthy b"
  by (induction ls b rule: winnerCheck_from.induct) (auto split: if_splits option.splits)

lemma winnerCheck_Null_free:
  assumes "winnerCheck b = Null" and "length b = 9"
  shows "frees b \<noteq> []"
proof -
  from assms(1) have "\<not> list_all truthy b"
    unfolding winnerCheck_def by (rule winnerCheck_from_Null)
  then obtain i where "i < length b" "b ! i = None"
    by (auto simp: list_all_length truthy_def)
  with assms(2) have "i \<in> set (frees b)" by (simp add: in_frees)
  then show ?thesis by auto
qed

lemma maximize_Some: "rs \<noteq> [] \<Longrightarrow> \<exists>r. maximize rs = Some r"
  by (cases rs) (simp_all add: maximize_def)

lemma minimize_Some: "rs \<noteq> [] \<Longrightarrow> \<exists>r. minimize rs = Some r"
  by (cases rs) (simp_all add: minimize_def)

lemma search_Some:
  assumes "length b = 9"
  shows "\<exists>r. search p b t = Some r"
proof (cases "winnerCheck b")
  case (Mark m)
  then show ?thesis using mark_cases [of m p] by (auto simp: search_unfold Let_def)
next
  case DrawStr
  then show ?thesis by (simp add: search_unfold Let_def)
next
  case Null
  with assms have "map (child p b t) (frees b) \<noteq> []"
    by (simp add: winnerCheck_Null_free)
  then show ?thesis
    using Null maximize_Some minimize_Some by (simp add: search_unfold Let_def)
qed

lemma explore_refines:
  assumes mm: "\<And>s' t'. bd < length s' \<Longrightarrow> length (s' ! bd) = 9 \<Longrightarrow> empties (s' ! bd) < n \<Longrightarrow>
                 minimax n p s' bd t' = (Inr (search p (s' ! bd) t'), s')"
    and bd: "bd < length s" and len: "length (s ! bd) = 9" and fuel: "empties (s ! bd) \<le> n"
  shows "i \<le> 9 \<Longrightarrow> explore n p s bd t i scores =
           (Inr (scores @ map (child p (s ! bd) t) (filter (\<lambda>j. s ! bd ! j = None) [i..<9])), s)"
proof (induction "9 - i" arbitrary: i scores)
  case 0
  then have "i = 9" by simp
  then show ?case by (subst explore.simps) simp
next
  case (Suc k)
  then have i: "i < 9" by simp
  then have upt: "[i..<9] = i # [Suc i..<9]" by (simp add: upt_conv_Cons)
  have rest: "\<And>sc. explore n p s bd t (Suc i) sc =
      (Inr (sc @ map (child p (s ! bd) t) (filter (\<lambda>j. s ! bd ! j = None) [Suc i..<9])), s)"
    using Suc.hyps(1) [of "Suc i"] Suc.hyps(2) i by simp
  show ?case
  proof (cases "s ! bd ! i")
    case (Some m)
    then show ?thesis
      by (subst explore.simps) (simp add: i upt rest truthy_def)
  next
    case None
    let ?b = "s ! bd"
    let ?s1 = "s[bd := ?b[i := Some t]]"
    let ?t' = "if t = p then opponent p else p"
    have b1: "?s1 ! bd = ?b[i := Some t]" using bd by simp
    have "empties (?b[i := Some t]) < empties ?b"
      using None i len by (simp add: empties_update)
    then have "minimax n p ?s1 bd ?t' = (Inr (search p (?s1 ! bd) ?t'), ?s1)"
      using mm [of ?s1 ?t'] bd len fuel b1 by simp
    moreover obtain r where r: "search p (?b[i := Some t]) ?t' = Some r"
      using search_Some [of "?b[i := Some t]" p ?t'] len by auto
    moreover have "?s1[bd := (?s1 ! bd)[i := None]] = s"
    proof -
      have "?b[i := None] = ?b" using None by (metis list_update_id)
      then show ?thesis using bd by (simp add: b1)
    qed
    moreover have "child p ?b t i = Res (Some i) (score r)"
      using r by (simp add: child_def)
    ultimately show ?thesis
      by (subst explore.simps) (simp add: i upt rest truthy_def None b1)
  qed
qed

lemma frees_nine: "length b = 9 \<Longrightarrow> frees b = filter (\<lambda>j. b ! j = None) [0..<9]"
  unfolding frees_def by (rule filter_cong) auto

lemma minimax_refines:
  "bd < length s \<Longrightarrow> length (s ! bd) = 9 \<Longrightarrow> empties (s ! bd) < n \<Longrightarrow>
   minimax n p s bd t = (Inr (search p (s ! bd) t), s)"
proof (induction n arbitrary: s t)
  case 0
  then show ?case by simp
next
  case (Suc n)
  have ex: "explore n p s bd t 0 [] = (Inr (map (child p (s ! bd) t) (frees (s ! bd))), s)"
    using explore_refines [of bd n p s 0 t "[]", OF Suc.IH] Suc.prems
    by (simp add: frees_nine)
  show ?case
    by (subst minimax.simps, subst search_unfold) (simp add: Let_def ex)
qed

lemma winnerCheck_from_verdict:
  "winnerCheck_from ls b =
     (case checkWinner_from ls b of Win m l \<Rightarrow> Mark m | Draw \<Rightarrow> DrawStr | InProgress \<Rightarrow> Null)"
  by (induction ls b rule: winnerCheck_from.induct) (auto split: option.splits)

lemma winnerCheck_verdict:
  "winnerCheck b = (case checkWinner b of Win m l \<Rightarrow> Mark m | Draw \<Rightarrow> DrawStr | InProgress \<Rightarrow> Null)"
  by (simp add: winnerCheck_def checkWinner_def winnerCheck_from_verdict)

lemma opponent_opponent: "opponent (opponent p) = p"
  by (cases p) (simp_all add: opponent_def)

lemma next_turn: "(if t = p then opponent p else p) = opponent t"
  using mark_cases [of t p] by (auto simp: opponent_opponent)

lemma score_child:
  "length b = 9 \<Longrightarrow> search p (b[i := Some t]) (opponent t) = Some r \<Longrightarrow> score (child p b t i) = score r"
  by (simp add: child_def next_turn)

lemma secures_iff:
  "length b = 9 \<Longrightarrow> secures p k b t \<longleftrightarrow> (\<exists>r. search p b t = Some r \<and> k \<le> score r)"
proof (induction "empties b" arbitrary: b t rule: less_induct)
  case less
  show ?case
  proof (cases "checkWinner b")
    case (Win m l)
    then have "winnerCheck b = Mark m" by (simp add: winnerCheck_verdict)
    then show ?thesis
      using Win mark_cases [of m p] opponent_neq [of p]
      by (subst secures.simps, subst search_unfold) (auto simp: Let_def)
  next
    case Draw
    then have "winnerCheck b = DrawStr" by (simp add: winnerCheck_verdict)
    then show ?thesis using Draw
      by (subst secures.simps, subst search_unfold) (auto simp: Let_def)
  next
    case InProgress
    then have wc: "winnerCheck b = Null" by (simp add: winnerCheck_verdict)
    let ?rs = "map (child p b t) (frees b)"
    have ne: "?rs \<noteq> []" using wc less.prems by (simp add: winnerCheck_Null_free)
    have kid: "secures p k (b[i := Some t]) (opponent t) \<longleftrightarrow> k \<le> score (child p b t i)"
      if "i \<in> set (frees b)" for i
    proof -
      from that less.prems have "empties (b[i := Some t]) < empties b"
        by (simp add: in_frees empties_update)
      then have "secures p k (b[i := Some t]) (opponent t) \<longleftrightarrow>
          (\<exists>r. search p (b[i := Some t]) (opponent t) = Some r \<and> k \<le> score r)"
        using less.hyps [of "b[i := Some t]" "opponent t"] less.prems by simp
      moreover obtain r where "search p (b[i := Some t]) (opponent t) = Some r"
        using search_Some [of "b[i := Some t]" p "opponent t"] less.prems by auto
      ultimately show ?thesis using less.prems by (simp add: score_child)
    qed
    show ?thesis
    proof (cases "t = p")
      case True
      from maximize_first [OF ne] obtain j where j: "j < length ?rs" "maximize ?rs = Some (?rs ! j)"
        "\<forall>x\<in>set ?rs. score x \<le> score (?rs ! j)" by blast
      have s: "search p b t = Some (?rs ! j)"
        using wc True j(2) by (subst search_unfold) (simp add: Let_def)
      have "secures p k b t \<longleftrightarrow> (\<exists>i\<in>set (frees b). k \<le> score (child p b t i))"
        using InProgress True kid by (subst secures.simps) auto
      also have "\<dots> \<longleftrightarrow> k \<le> score (?rs ! j)"
      proof
        assume "\<exists>i\<in>set (frees b). k \<le> score (child p b t i)"
        then obtain i where "i \<in> set (frees b)" "k \<le> score (child p b t i)" by blast
        moreover from this j(3) have "score (child p b t i) \<le> score (?rs ! j)" by simp
        ultimately show "k \<le> score (?rs ! j)" by linarith
      next
        assume "k \<le> score (?rs ! j)"
        moreover have "?rs ! j = child p b t (frees b ! j)" "frees b ! j \<in> set (frees b)"
          using j(1) by simp_all
        ultimately show "\<exists>i\<in>set (frees b). k \<le> score (child p b t i)" by metis
      qed
      finally show ?thesis using s by simp
    next
      case False
      from minimize_least [OF ne] obtain r where r: "r \<in> set ?rs" "minimize ?rs = Some r"
        "\<forall>x\<in>set ?rs. score r \<le> score x" by blast
      have s: "search p b t = Some r"
        using wc False r(2) by (subst search_unfold) (simp add: Let_def)
      have "secures p k b t \<longleftrightarrow> (\<forall>i\<in>set (frees b). k \<le> score (child p b t i))"
        using InProgress False kid by (subst secures.simps) auto
      also have "\<dots> \<longleftrightarrow> k \<le> score r"
      proof
        assume a: "\<forall>i\<in>set (frees b). k \<le> score (child p b t i)"
        from r(1) obtain i where "i \<in> set (frees b)" "r = child p b t i" by auto
        with a show "k \<le> score r" by simp
      next
        assume "k \<le> score r"
        with r(3) show "\<forall>i\<in>set (frees b). k \<le> score (child p b t i)" by fastforce
      qed
      finally show ?thesis using s by simp
    qed
  qed
qed

section \<open>What the search returns at the root\<close>

lemma empties_nine: "length b = 9 \<Longrightarrow> empties b < 10"
  using empties_le [of b] by simp

lemma bestMove_search:
  assumes "a < length s" and "length (s ! a) = 9" and "search p (s ! a) p = Some r"
  shows "bestMove s a p = (Inr (idx r), s @ [s ! a])"
proof -
  let ?s1 = "s @ [s ! a]"
  have "?s1 ! length s = s ! a" by simp
  moreover have "length s < length ?s1" by simp
  ultimately have "minimax 10 p ?s1 (length s) p = (Inr (search p (s ! a) p), ?s1)"
    using minimax_refines [of "length s" ?s1 10 p p] assms(2) empties_nine [of "s ! a"]
    by simp
  with assms(3) show ?thesis by (simp add: bestMove_def)
qed

lemma sorted_frees: "sorted (frees b)" and distinct_frees: "distinct (frees b)"
  by (simp_all add: frees_def sorted_wrt_filter)

lemma frees_earlier:
  assumes "k < length (frees b)" and "j \<in> set (frees b)" and "j < frees b ! k"
  shows "\<exists>k'<k. frees b ! k' = j"
proof -
  from assms(2) obtain k' where k': "k' < length (frees b)" "frees b ! k' = j"
    by (auto simp: in_set_conv_nth)
  have "k' < k"
  proof (rule ccontr)
    assume "\<not> k' < k"
    then have "k \<le> k'" by simp
    then have "frees b ! k \<le> frees b ! k'"
      using sorted_frees k'(1) by (simp add: sorted_nth_mono)
    with assms(3) k'(2) show False by simp
  qed
  with k'(2) show ?thesis by blast
qed

lemma search_root:
  assumes "length b = 9" and "checkWinner b = InProgress"
  shows "\<exists>i\<in>set (frees b). search p b p = Some (child p b p i) \<and>
           (\<forall>j\<in>set (frees b). score (child p b p j) \<le> score (child p b p i) \<and>
              (j < i \<longrightarrow> score (child p b p j) < score (child p b p i)))"
proof -
  from assms(2) have wc: "winnerCheck b = Null" by (simp add: winnerCheck_verdict)
  let ?rs = "map (child p b p) (frees b)"
  have ne: "?rs \<noteq> []" using wc assms(1) by (simp add: winnerCheck_Null_free)
  from maximize_first [OF ne] obtain k where k: "k < length ?rs" "maximize ?rs = Some (?rs ! k)"
    "\<forall>j<k. score (?rs ! j) < score (?rs ! k)" "\<forall>x\<in>set ?rs. score x \<le> score (?rs ! k)" by blast
  let ?i = "frees b ! k"
  have kf: "k < length (frees b)" using k(1) by simp
  then have mem: "?i \<in> set (frees b)" and rk: "?rs ! k = child p b p ?i" by simp_all
  have s: "search p b p = Some (child p b p ?i)"
    using wc k(2) rk by (subst search_unfold) (simp add: Let_def)
  have "score (child p b p j) \<le> score (child p b p ?i) \<and>
        (j < ?i \<longrightarrow> score (child p b p j) < score (child p b p ?i))" if j: "j \<in> set (frees b)" for j
  proof
    from j k(4) rk show "score (child p b p j) \<le> score (child p b p ?i)" by simp
    show "j < ?i \<longrightarrow> score (child p b p j) < score (child p b p ?i)"
    proof
      assume "j < ?i"
      with frees_earlier [OF kf j] obtain k' where k': "k' < k" "frees b ! k' = j" by blast
      then have "?rs ! k' = child p b p j" using kf by simp
      with k(3) k'(1) rk show "score (child p b p j) < score (child p b p ?i)" by metis
    qed
  qed
  with mem s show ?thesis by blast
qed

lemma idx_child: "idx (child p b t i) = Some i"
  by (simp add: child_def)

lemma cellScore_child:
  assumes "length b = 9"
  shows "cellScore p b j = Some (score (child p b p j))"
proof -
  let ?b' = "b[j := Some p]"
  have len: "length ?b' = 9" using assms by simp
  then obtain r where r: "search p ?b' (opponent p) = Some r"
    using search_Some by blast
  have "minimax 10 p [?b'] 0 (opponent p) = (Inr (search p ([?b'] ! 0) (opponent p)), [?b'])"
    using minimax_refines [of 0 "[?b']" 10 p "opponent p"] len empties_nine [of ?b'] by simp
  with r have "cellScore p b j = Some (score r)" by (simp add: cellScore_def)
  moreover have "score (child p b p j) = score r" using r by (simp add: child_def)
  ultimately show ?thesis by simp
qed

lemma search_terminal:
  assumes "checkWinner b \<noteq> InProgress"
  shows "\<exists>sc. search p b t = Some (Res None sc)"
proof (cases "checkWinner b")
  case (Win m l)
  then have "winnerCheck b = Mark m" by (simp add: winnerCheck_verdict)
  then show ?thesis using mark_cases [of m p] by (subst search_unfold) (auto simp: Let_def)
next
  case Draw
  then have "winnerCheck b = DrawStr" by (simp add: winnerCheck_verdict)
  then show ?thesis by (subst search_unfold) (simp add: Let_def)
next
  case InProgress
  with assms show ?thesis by simp
qed

lemma full_board_terminal:
  assumes "list_all truthy b"
  shows "checkWinner b \<noteq> InProgress"
proof
  assume "checkWinner b = InProgress"
  then have "winnerCheck b = Null" by (simp add: winnerCheck_verdict)
  then have "\<not> list_all truthy b" unfolding winnerCheck_def by (rule winnerCheck_from_Null)
  with assms show False by simp
qed

lemma explore_step:
  assumes bd: "bd < length s" and len: "length (s ! bd) = 9" and fuel: "empties (s ! bd) \<le> n"
    and i: "i < 9" and free: "s ! bd ! i = None"
  shows "\<exists>sc. explore n p s bd t i scores = explore n p s bd t (Suc i) (scores @ [Res (Some i) sc])"
proof -
  let ?b = "s ! bd"
  let ?s1 = "s[bd := ?b[i := Some t]]"
  let ?t' = "if t = p then opponent p else p"
  have b1: "?s1 ! bd = ?b[i := Some t]" using bd by simp
  have "empties (?b[i := Some t]) < empties ?b"
    using free i len by (simp add: empties_update)
  then have mm: "minimax n p ?s1 bd ?t' = (Inr (search p (?s1 ! bd) ?t'), ?s1)"
    using minimax_refines [of bd ?s1 n p ?t'] bd len fuel b1 by simp
  obtain r where r: "search p (?b[i := Some t]) ?t' = Some r"
    using search_Some [of "?b[i := Some t]" p ?t'] len by auto
  have "?b[i := None] = ?b" using free by (metis list_update_id)
  then have undo: "s[bd := (s ! bd)[i := None]] = s" using bd by simp
  have "explore n p s bd t i scores = explore n p s bd t (Suc i) (scores @ [Res (Some i) (score r)])"
    by (subst explore.simps) (simp add: i free truthy_def mm b1 r undo)
  then show ?thesis ..
qed

lemma explore_all:
  assumes "bd < length s" and "length (s ! bd) = 9" and "empties (s ! bd) \<le> n"
  shows "explore n p s bd t 0 [] = (Inr (map (child p (s ! bd) t) (frees (s ! bd))), s)"
  using explore_refines [of bd n p s 0 t "[]", OF minimax_refines] assms
  by (simp add: frees_nine)

section \<open>What a side can secure\<close>

lemma any_lazy_iff: "any_lazy P xs \<longleftrightarrow> (\<exists>x\<in>set xs. P x)"
  by (induction xs) auto

lemma all_lazy_iff: "all_lazy P xs \<longleftrightarrow> (\<forall>x\<in>set xs. P x)"
  by (induction xs) auto

lemma set_try_order: "set try_order = {i. i < 9}"
proof -
  have "i < 9 \<longleftrightarrow> i \<in> {4, 0, 2, 6, 8, 1, 3, 5, 7}" for i :: nat by auto
  then show ?thesis by (simp add: try_order_def set_eq_iff)
qed

lemma sec_check_secures:
  "length b = 9 \<Longrightarrow> empties b < n \<Longrightarrow> sec_check n p k b t = secures p k b t"
proof (induction n arbitrary: b t)
  case 0
  then show ?case by simp
next
  case (Suc n)
  show ?case
  proof (cases "checkWinner b")
    case (Win m l)
    then have "winnerCheck b = Mark m" by (simp add: winnerCheck_verdict)
    with Win show ?thesis by (subst secures.simps) simp
  next
    case Draw
    then have "winnerCheck b = DrawStr" by (simp add: winnerCheck_verdict)
    with Draw show ?thesis by (subst secures.simps) simp
  next
    case InProgress
    then have wc: "winnerCheck b = Null" by (simp add: winnerCheck_verdict)
    have kid: "sec_check n p k (b[i := Some t]) (opponent t) = secures p k (b[i := Some t]) (opponent t)"
      if "i < 9" "b ! i = None" for i
    proof -
      from that Suc.prems have "empties (b[i := Some t]) < empties b" by (simp add: empties_update)
      with Suc.prems have "empties (b[i := Some t]) < n" by simp
      with Suc.prems show ?thesis by (simp add: Suc.IH)
    qed
    have fr: "i \<in> set (frees b) \<longleftrightarrow> i < 9 \<and> b ! i = None" for i
      using Suc.prems(1) by (auto simp: in_frees)
    show ?thesis
    proof (cases "t = p")
      case True
      have "sec_check (Suc n) p k b t \<longleftrightarrow>
          (\<exists>i\<in>set try_order. b ! i = None \<and> sec_check n p k (b[i := Some t]) (opponent t))"
        using wc True by (auto simp: any_lazy_iff)
      also have "\<dots> \<longleftrightarrow> (\<exists>i\<in>set (frees b). secures p k (b[i := Some t]) (opponent t))"
        using kid fr by (auto simp: set_try_order)
      also have "\<dots> \<longleftrightarrow> secures p k b t"
        using InProgress True by (subst (2) secures.simps) simp
      finally show ?thesis .
    next
      case False
      have "sec_check (Suc n) p k b t \<longleftrightarrow>
          (\<forall>i\<in>set try_order. b ! i = None \<longrightarrow> sec_check n p k (b[i := Some t]) (opponent t))"
        using wc False by (auto simp: all_lazy_iff)
      also have "\<dots> \<longleftrightarrow> (\<forall>i\<in>set (frees b). secures p k (b[i := Some t]) (opponent t))"
        using kid fr by (auto simp: set_try_order)
      also have "\<dots> \<longleftrightarrow> secures p k b t"
        using InProgress False by (subst (2) secures.simps) simp
      finally show ?thesis .
    qed
  qed
qed

lemma secures_move:
  assumes len: "length b = 9" and ip: "checkWinner b = InProgress"
    and bm: "fst (bestMove [b] 0 p) = Inr (Some i)"
  shows "i < 9" and "b ! i = None"
    and "secures p k (b[i := Some p]) (opponent p) \<longleftrightarrow> secures p k b p"
proof -
  from search_root [OF len ip, of p] obtain i0 where
    i0: "i0 \<in> set (frees b)" "search p b p = Some (child p b p i0)" by blast
  have "bestMove [b] 0 p = (Inr (idx (child p b p i0)), [b] @ [[b] ! 0])"
    using bestMove_search [of 0 "[b]" p "child p b p i0"] len i0(2) by simp
  with bm have eq: "i = i0" by (simp add: idx_child)
  with i0(1) show "i < 9" and "b ! i = None" by (simp_all add: in_frees)
  let ?b' = "b[i := Some p]"
  obtain r where r: "search p ?b' (opponent p) = Some r"
    using search_Some [of ?b' p "opponent p"] len by auto
  have "secures p k ?b' (opponent p) \<longleftrightarrow> k \<le> score r"
    using secures_iff [of ?b' p k "opponent p"] len r by simp
  also have "\<dots> \<longleftrightarrow> k \<le> score (child p b p i)"
    using score_child [OF len r] by simp
  also have "\<dots> \<longleftrightarrow> secures p k b p"
    using secures_iff [OF len, of p k p] i0(2) eq by simp
  finally show "secures p k (b[i := Some p]) (opponent p) \<longleftrightarrow> secures p k b p" .
qed

lemma replay_keeps:
  assumes "replay p (b, t) (b', t')" and "length b = 9" and "secures p k b t"
  shows "length b' = 9 \<and> secures p k b' t'"
  using assms
proof (cases rule: replay.cases)
  case (searcher i)
  with assms(2,3) show ?thesis using secures_move(3) [of b p i k] by simp
next
  case (other i)
  then have "i \<in> set (frees b)" using assms(2) by (simp add: in_frees)
  moreover from assms(3) other opponent_neq [of p]
  have "\<forall>j\<in>set (frees b). secures p k (b[j := Some t]) (opponent t)"
    by (subst (asm) secures.simps) simp
  ultimately show ?thesis using other assms(2) by (simp add: opponent_opponent)
qed

lemma replay_star_keeps:
  assumes "(replay p)\<^sup>*\<^sup>* (b0, t0) (b, t)" and "length b0 = 9" and "secures p k b0 t0"
  shows "length b = 9 \<and> secures p k b t"
  using assms
proof (induction "(b0, t0)" "(b, t)" arbitrary: b t rule: rtranclp.induct)
  case rtrancl_refl
  then show ?case by simp
next
  case (rtrancl_into_rtrancl mid)
  obtain b1 t1 where mid: "mid = (b1, t1)" by (cases mid) auto
  with rtrancl_into_rtrancl have "length b1 = 9 \<and> secures p k b1 t1" by simp
  with rtrancl_into_rtrancl(3) mid show ?case using replay_keeps by blast
qed

lemma secures_finished:
  assumes "secures p k b t" and "checkWinner b \<noteq> InProgress"
  shows "k \<le> outcome p (checkWinner b)"
  using assms by (subst (asm) secures.simps) simp

lemma secures_no_loss:
  assumes "secures p 0 b t"
  shows "checkWinner b \<noteq> Win (opponent p) l"
proof
  assume w: "checkWinner b = Win (opponent p) l"
  with secures_finished [OF assms] have "0 \<le> outcome p (Win (opponent p) l)" by simp
  then show False using opponent_neq [of p] by simp
qed

lemma selfplay_replay:
  assumes "selfplay (b, t) (b', t')" and "length b = 9"
  shows "replay p (b, t) (b', t')"
  using assms(1)
proof (cases rule: selfplay.cases)
  case (1 i)
  show ?thesis
  proof (cases "t = p")
    case True
    with 1 show ?thesis using replay.searcher [of b p i] by simp
  next
    case False
    then have t: "t = opponent p" using mark_cases [of t p] by simp
    from secures_move(1,2) [OF assms(2) 1(3,4)] have "i < 9" "b ! i = None" .
    with 1 t show ?thesis using replay.other [of b i p] by (simp add: opponent_opponent)
  qed
qed

lemma selfplay_star_replay:
  assumes "selfplay\<^sup>*\<^sup>* (b0, t0) (b, t)" and "length b0 = 9"
  shows "(replay p)\<^sup>*\<^sup>* (b0, t0) (b, t) \<and> length b = 9"
  using assms
proof (induction "(b0, t0)" "(b, t)" arbitrary: b t rule: rtranclp.induct)
  case rtrancl_refl
  then show ?case by simp
next
  case (rtrancl_into_rtrancl mid)
  obtain b1 t1 where mid: "mid = (b1, t1)" by (cases mid) auto
  with rtrancl_into_rtrancl have ih: "(replay p)\<^sup>*\<^sup>* (b0, t0) (b1, t1) \<and> length b1 = 9" by simp
  with rtrancl_into_rtrancl(3) mid have st: "replay p (b1, t1) (b, t)"
    using selfplay_replay by blast
  moreover from rtrancl_into_rtrancl(3) mid ih have "length b = 9"
    by (auto elim: selfplay.cases)
  ultimately show ?case using ih by (meson rtranclp.rtrancl_into_rtrancl)
qed

lemma empty_secures_draw: "secures p 0 board_empty t"
proof -
  have len: "length board_empty = 9" and e: "empties board_empty < 10"
    by (simp_all add: board_empty_def empties_def)
  have "sec_check 10 MarkX 0 board_empty MarkX" by code_simp
  moreover have "sec_check 10 MarkX 0 board_empty MarkO" by code_simp
  moreover have "sec_check 10 MarkO 0 board_empty MarkX" by code_simp
  moreover have "sec_check 10 MarkO 0 board_empty MarkO" by code_simp
  ultimately have "sec_check 10 p 0 board_empty t" by (cases p; cases t) simp_all
  then show ?thesis using sec_check_secures [OF len e] by simp
qed

lemma empty_no_forced_win: "\<not> secures p 1 board_empty p"
proof -
  have len: "length board_empty = 9" and e: "empties board_empty < 10"
    by (simp_all add: board_empty_def empties_def)
  have "\<not> sec_check 10 MarkX 1 board_empty MarkX" by code_simp
  moreover have "\<not> sec_check 10 MarkO 1 board_empty MarkO" by code_simp
  ultimately have "\<not> sec_check 10 p 1 board_empty p" by (cases p) simp_all
  then show ?thesis using sec_check_secures [OF len e] by simp
qed

lemma empty_corner_draw: "secures p 0 (board_empty[0 := Some p]) (opponent p)"
proof -
  have len: "length (board_empty[0 := Some p]) = 9" and e: "empties (board_empty[0 := Some p]) < 10"
    by (simp_all add: board_empty_def empties_def)
  have "sec_check 10 MarkX 0 (board_empty[0 := Some MarkX]) (opponent MarkX)" by code_simp
  moreover have "sec_check 10 MarkO 0 (board_empty[0 := Some MarkO]) (opponent MarkO)" by code_simp
  ultimately have "sec_check 10 p 0 (board_empty[0 := Some p]) (opponent p)" by (cases p) simp_all
  then show ?thesis using sec_check_secures [OF len e] by simp
qed

lemma bestMove_empty_board: "fst (bestMove [board_empty] 0 p) = Inr (Some 0)"
proof -
  let ?b = board_empty
  have len: "length ?b = 9" by (simp add: board_empty_def)
  have ip: "checkWinner ?b = InProgress"
    by (simp add: board_empty_def checkWinner_def LINES_def truthy_def)
  from search_root [OF len ip, of p] obtain i where
    i: "i \<in> set (frees ?b)" "search p ?b p = Some (child p ?b p i)"
    and best: "\<forall>j\<in>set (frees ?b). score (child p ?b p j) \<le> score (child p ?b p i) \<and>
              (j < i \<longrightarrow> score (child p ?b p j) < score (child p ?b p i))" by blast
  have top: "score (child p ?b p i) \<le> 0"
    using empty_no_forced_win [of p] secures_iff [OF len, of p 1 p] i(2) by simp
  have zero: "0 \<in> set (frees ?b)" by (simp add: in_frees board_empty_def)
  obtain r where r: "search p (?b[0 := Some p]) (opponent p) = Some r"
    using search_Some [of "?b[0 := Some p]" p "opponent p"] len by auto
  have "0 \<le> score r"
    using empty_corner_draw [of p] secures_iff [of "?b[0 := Some p]" p 0 "opponent p"] len r by simp
  then have low: "0 \<le> score (child p ?b p 0)" using score_child [OF len r] by simp
  have "i = 0"
  proof (rule ccontr)
    assume "i \<noteq> 0"
    then have "0 < i" by simp
    with best zero have "score (child p ?b p 0) < score (child p ?b p i)" by blast
    with top low show False by simp
  qed
  with bestMove_search [of 0 "[?b]" p "child p ?b p i"] len i(2) show ?thesis
    by (simp add: idx_child)
qed

lemma bestMove_any_store:
  assumes "a < length s" and "length (s ! a) = 9"
  shows "fst (bestMove s a p) = fst (bestMove [s ! a] 0 p)"
proof -
  obtain r where r: "search p (s ! a) p = Some r" using search_Some [OF assms(2)] by blast
  have "bestMove s a p = (Inr (idx r), s @ [s ! a])"
    using assms r by (rule bestMove_search)
  moreover have "bestMove [s ! a] 0 p = (Inr (idx r), [s ! a] @ [[s ! a] ! 0])"
    using bestMove_search [of 0 "[s ! a]" p r] assms(2) r by simp
  ultimately show ?thesis by simp
qed

lemma bestMove_some:
  assumes "length b = 9" and "checkWinner b = InProgress"
  shows "\<exists>i. fst (bestMove [b] 0 p) = Inr (Some i)"
proof -
  from search_root [OF assms, of p] obtain i where "search p b p = Some (child p b p i)" by blast
  then have "bestMove [b] 0 p = (Inr (idx (child p b p i)), [b] @ [[b] ! 0])"
    using bestMove_search [of 0 "[b]" p "child p b p i"] assms(1) by simp
  then show ?thesis by (simp add: idx_child)
qed

lemma secures_child:
  assumes "length b = 9"
  shows "secures p k (b[j := Some p]) (opponent p) \<longleftrightarrow> k \<le> score (child p b p j)"
proof -
  let ?b' = "b[j := Some p]"
  have len: "length ?b' = 9" using assms by simp
  obtain r where r: "search p ?b' (opponent p) = Some r"
    using search_Some [OF len] by blast
  have "secures p k ?b' (opponent p) \<longleftrightarrow> k \<le> score r"
    using secures_iff [OF len, of p k "opponent p"] r by simp
  then show ?thesis using score_child [OF assms r] by simp
qed

section \<open>The claims about the evaluator\<close>

text \<open>
  Claim C2. For every board of nine cells, whatever marks it holds, on which at least one
  of the eight lines has its three cells equal to one mark: \<open>checkWinner\<close> returns
  \<open>Win m line\<close> where \<open>line\<close> is the first completed line in the order of \<open>LINES\<close>
  (\<open>0,1,2\<close>; \<open>3,4,5\<close>; \<open>6,7,8\<close>; \<open>0,3,6\<close>; \<open>1,4,7\<close>; \<open>2,5,8\<close>; \<open>0,4,8\<close>; \<open>2,4,6\<close>) and \<open>m\<close> is
  the mark on it, also on a board that is won twice.
\<close>

theorem checkWinner_first_completed_line:
  assumes "length board = 9"
    and "\<exists>l\<in>set LINES. \<exists>m. completed board m l"
  shows "LINES = [(0, 1, 2), (3, 4, 5), (6, 7, 8), (0, 3, 6), (1, 4, 7), (2, 5, 8), (0, 4, 8), (2, 4, 6)] \<and>
         (\<exists>k<length LINES. \<exists>m. checkWinner board = Win m (line_cells (LINES ! k)) \<and>
            completed board m (LINES ! k) \<and> (\<forall>j<k. \<forall>m'. \<not> completed board m' (LINES ! j)))"
proof -
  from first_completed_exists [OF assms(2)] obtain k m where
    k: "k < length LINES" "completed board m (LINES ! k)"
       "\<forall>j<k. \<forall>m'. \<not> completed board m' (LINES ! j)" by blast
  then have "checkWinner board = Win m (line_cells (LINES ! k))"
    unfolding checkWinner_def by (rule checkWinner_from_first)
  with k show ?thesis by (auto simp: LINES_def)
qed

theorem checkWinner_first_completed_line_witness:
  "length board_twice = 9 \<and> (\<exists>l\<in>set LINES. \<exists>m. completed board_twice m l) \<and>
   completed board_twice MarkX (0, 1, 2) \<and> completed board_twice MarkO (3, 4, 5) \<and>
   checkWinner board_twice = Win MarkX [0, 1, 2] \<and>
   (\<exists>k<length LINES. \<exists>m. checkWinner board_twice = Win m (line_cells (LINES ! k)) \<and>
      completed board_twice m (LINES ! k) \<and> (\<forall>j<k. \<forall>m'. \<not> completed board_twice m' (LINES ! j)))"
proof -
  have len: "length board_twice = 9" by (simp add: board_twice_def)
  have x: "completed board_twice MarkX (0, 1, 2)" and o: "completed board_twice MarkO (3, 4, 5)"
    by (simp_all add: board_twice_def)
  from x have ex: "\<exists>l\<in>set LINES. \<exists>m. completed board_twice m l" by (auto simp: LINES_def)
  have cw: "checkWinner board_twice = Win MarkX [0, 1, 2]"
    by (simp add: board_twice_def checkWinner_def LINES_def truthy_def)
  from checkWinner_first_completed_line [OF len ex]
  have "\<exists>k<length LINES. \<exists>m. checkWinner board_twice = Win m (line_cells (LINES ! k)) \<and>
      completed board_twice m (LINES ! k) \<and> (\<forall>j<k. \<forall>m'. \<not> completed board_twice m' (LINES ! j))"
    by blast
  with len ex x o cw show ?thesis by blast
qed

text \<open>
  Claim C3. For every board of nine cells with no completed line: \<open>checkWinner\<close> returns
  \<open>Draw\<close> if every cell is non-empty, and \<open>InProgress\<close> if at least one cell is empty.
\<close>

theorem checkWinner_no_completed_line:
  assumes "length board = 9"
    and "\<forall>l\<in>set LINES. \<forall>m. \<not> completed board m l"
  shows "((\<forall>i<9. board ! i \<noteq> None) \<longrightarrow> checkWinner board = Draw) \<and>
         ((\<exists>i<9. board ! i = None) \<longrightarrow> checkWinner board = InProgress)"
proof -
  have "checkWinner board = (if list_all truthy board then Draw else InProgress)"
    unfolding checkWinner_def using assms(2) by (rule checkWinner_from_none)
  moreover have "list_all truthy board \<longleftrightarrow> (\<forall>i<9. board ! i \<noteq> None)"
    using assms(1) by (simp add: list_all_length truthy_def)
  ultimately show ?thesis by auto
qed

theorem checkWinner_no_completed_line_witness:
  "checkWinner [Some MarkX, Some MarkO, Some MarkX, Some MarkX, Some MarkO, Some MarkO, Some MarkO, Some MarkX, Some MarkX]
     = Draw \<and>
   checkWinner [Some MarkX, Some MarkO, None, None, Some MarkO, None, None, Some MarkX, None] = InProgress"
proof -
  let ?d = "[Some MarkX, Some MarkO, Some MarkX, Some MarkX, Some MarkO, Some MarkO, Some MarkO, Some MarkX, Some MarkX]"
  let ?g = "[Some MarkX, Some MarkO, None, None, Some MarkO, None, None, Some MarkX, None]"
  have "length ?d = 9" by simp
  moreover have "\<forall>l\<in>set LINES. \<forall>m. \<not> completed ?d m l" by (simp add: LINES_def)
  moreover have "\<forall>i<9. ?d ! i \<noteq> None"
  proof (intro allI impI)
    fix i :: nat assume "i < 9"
    then have "i \<in> {0, 1, 2, 3, 4, 5, 6, 7, 8}" by auto
    then show "?d ! i \<noteq> None" by auto
  qed
  ultimately have d: "checkWinner ?d = Draw"
    using checkWinner_no_completed_line [of ?d] by blast
  have "length ?g = 9" by simp
  moreover have "\<forall>l\<in>set LINES. \<forall>m. \<not> completed ?g m l" by (simp add: LINES_def)
  moreover have "\<exists>i<9. ?g ! i = None" by (rule exI [of _ 2]) simp
  ultimately have "checkWinner ?g = InProgress"
    using checkWinner_no_completed_line [of ?g] by blast
  with d show ?thesis by simp
qed

section \<open>The claims about the searcher\<close>

text \<open>
  Claim C1. For every board of nine cells on which \<open>checkWinner\<close> returns \<open>InProgress\<close> (such
  a board has an empty cell), \<open>bestMove\<close> returns an empty cell \<open>i\<close>, and placing the mark
  of the searching side there keeps what that side can secure: if it can hold at least a
  draw on the input board it still can after the move, and if it has a forced win it still
  has one after the move. Over a whole game in which the searching side always plays
  \<open>bestMove\<close> and the other side plays any empty cell, a result \<open>k\<close> that the searching
  side can secure at the start is still secured at every board that is reached, and a
  finished board that is reached has a result of at least \<open>k\<close>. From the empty board,
  whoever moves first, no board won by the other side is ever reached; and when both sides
  play \<open>bestMove\<close> from the empty board, no board won by either side is reached.
\<close>

theorem bestMove_secures_optimal_outcome:
  "(a < length s \<and> length (s ! a) = 9 \<and> checkWinner (s ! a) = InProgress \<longrightarrow>
      (\<exists>i. fst (bestMove s a player) = Inr (Some i) \<and> i < 9 \<and> s ! a ! i = None \<and>
         (secures player 0 (s ! a) player \<longrightarrow>
            secures player 0 ((s ! a)[i := Some player]) (opponent player)) \<and>
         (secures player 1 (s ! a) player \<longrightarrow>
            secures player 1 ((s ! a)[i := Some player]) (opponent player)))) \<and>
   (length b0 = 9 \<and> secures player k b0 t0 \<and> (replay player)\<^sup>*\<^sup>* (b0, t0) (b, t) \<longrightarrow>
      secures player k b t \<and> (checkWinner b \<noteq> InProgress \<longrightarrow> k \<le> outcome player (checkWinner b))) \<and>
   ((replay player)\<^sup>*\<^sup>* (board_empty, t1) (b1, t2) \<longrightarrow> (\<forall>l. checkWinner b1 \<noteq> Win (opponent player) l)) \<and>
   (selfplay\<^sup>*\<^sup>* (board_empty, t3) (b2, t4) \<longrightarrow> (\<forall>m l. checkWinner b2 \<noteq> Win m l))"
proof (intro conjI impI)
  assume h: "a < length s \<and> length (s ! a) = 9 \<and> checkWinner (s ! a) = InProgress"
  then obtain i where "fst (bestMove [s ! a] 0 player) = Inr (Some i)"
    using bestMove_some by blast
  moreover have "fst (bestMove s a player) = fst (bestMove [s ! a] 0 player)"
    using h by (intro bestMove_any_store) simp_all
  ultimately have "fst (bestMove s a player) = Inr (Some i) \<and> i < 9 \<and> s ! a ! i = None \<and>
         (secures player 0 (s ! a) player \<longrightarrow>
            secures player 0 ((s ! a)[i := Some player]) (opponent player)) \<and>
         (secures player 1 (s ! a) player \<longrightarrow>
            secures player 1 ((s ! a)[i := Some player]) (opponent player))"
    using h secures_move [of "s ! a" player i] by simp
  then show "\<exists>i. fst (bestMove s a player) = Inr (Some i) \<and> i < 9 \<and> s ! a ! i = None \<and>
         (secures player 0 (s ! a) player \<longrightarrow>
            secures player 0 ((s ! a)[i := Some player]) (opponent player)) \<and>
         (secures player 1 (s ! a) player \<longrightarrow>
            secures player 1 ((s ! a)[i := Some player]) (opponent player))" ..
next
  assume h: "length b0 = 9 \<and> secures player k b0 t0 \<and> (replay player)\<^sup>*\<^sup>* (b0, t0) (b, t)"
  then have "length b = 9 \<and> secures player k b t" using replay_star_keeps by blast
  then show "secures player k b t" ..
next
  assume h: "length b0 = 9 \<and> secures player k b0 t0 \<and> (replay player)\<^sup>*\<^sup>* (b0, t0) (b, t)"
    and fin: "checkWinner b \<noteq> InProgress"
  from h have "length b = 9 \<and> secures player k b t" using replay_star_keeps by blast
  with fin show "k \<le> outcome player (checkWinner b)" using secures_finished by blast
next
  assume h: "(replay player)\<^sup>*\<^sup>* (board_empty, t1) (b1, t2)"
  have "length board_empty = 9" by (simp add: board_empty_def)
  with h empty_secures_draw [of player t1] have "secures player 0 b1 t2"
    using replay_star_keeps by blast
  then show "\<forall>l. checkWinner b1 \<noteq> Win (opponent player) l" using secures_no_loss by blast
next
  assume h: "selfplay\<^sup>*\<^sup>* (board_empty, t3) (b2, t4)"
  have len: "length board_empty = 9" by (simp add: board_empty_def)
  show "\<forall>m l. checkWinner b2 \<noteq> Win m l"
  proof (intro allI)
    fix m l
    from selfplay_star_replay [OF h len, of "opponent m"]
    have "(replay (opponent m))\<^sup>*\<^sup>* (board_empty, t3) (b2, t4)" ..
    with len empty_secures_draw [of "opponent m" t3] have "secures (opponent m) 0 b2 t4"
      using replay_star_keeps by blast
    then have "checkWinner b2 \<noteq> Win (opponent (opponent m)) l" by (rule secures_no_loss)
    then show "checkWinner b2 \<noteq> Win m l" by (simp add: opponent_opponent)
  qed
qed

theorem bestMove_secures_optimal_outcome_witness:
  "((0::nat) < length [board_tie] \<and> length ([board_tie] ! 0) = 9 \<and> checkWinner ([board_tie] ! 0) = InProgress) \<and>
   secures MarkX 1 board_tie MarkX \<and>
   fst (bestMove [board_tie] 0 MarkX) = Inr (Some 1) \<and>
   secures MarkX 1 (board_tie[1 := Some MarkX]) MarkO \<and>
   (replay MarkX)\<^sup>*\<^sup>* (board_tie, MarkX) (board_tie[1 := Some MarkX], MarkO) \<and>
   (replay MarkX)\<^sup>*\<^sup>* (board_empty, MarkO) (board_empty[4 := Some MarkO], MarkX) \<and>
   (\<forall>l. checkWinner (board_empty[4 := Some MarkO]) \<noteq> Win (opponent MarkX) l) \<and>
   selfplay\<^sup>*\<^sup>* (board_empty, MarkX) (board_empty[0 := Some MarkX], MarkO) \<and>
   (\<forall>m l. checkWinner (board_empty[0 := Some MarkX]) \<noteq> Win m l)"
proof -
  have h1: "0 < length [board_tie] \<and> length ([board_tie] ! 0) = 9 \<and> checkWinner ([board_tie] ! 0) = InProgress"
    by (simp add: board_tie_def checkWinner_def LINES_def truthy_def)
  have len: "length board_tie = 9" by (simp add: board_tie_def)
  have s1: "secures MarkX 1 board_tie MarkX" by code_simp
  have v: "fst (bestMove [board_tie] 0 MarkX) = Inr (Some 1)" by code_simp
  have op: "opponent MarkX = MarkO" by (simp add: opponent_def)
  have r1: "(replay MarkX)\<^sup>*\<^sup>* (board_tie, MarkX) (board_tie[1 := Some MarkX], MarkO)"
    using replay.searcher [of board_tie MarkX 1] h1 v op by auto
  have ipe: "checkWinner board_empty = InProgress"
    by (simp add: board_empty_def checkWinner_def LINES_def truthy_def)
  have "replay MarkX (board_empty, opponent MarkX) (board_empty[4 := Some (opponent MarkX)], MarkX)"
    by (rule replay.other) (simp_all add: ipe, simp add: board_empty_def)
  then have r2: "(replay MarkX)\<^sup>*\<^sup>* (board_empty, MarkO) (board_empty[4 := Some MarkO], MarkX)"
    using op by auto
  have "selfplay (board_empty, MarkX) (board_empty[0 := Some MarkX], opponent MarkX)"
    using ipe bestMove_empty_board [of MarkX] by (rule selfplay.intros)
  then have r3: "selfplay\<^sup>*\<^sup>* (board_empty, MarkX) (board_empty[0 := Some MarkX], MarkO)"
    using op by auto
  note t1 = bestMove_secures_optimal_outcome [where a = 0 and s = "[board_tie]" and player = MarkX
      and ?b0.0 = board_tie and k = 1 and ?t0.0 = MarkX and b = "board_tie[1 := Some MarkX]" and t = MarkO
      and ?t1.0 = MarkO and ?b1.0 = "board_empty[4 := Some MarkO]" and ?t2.0 = MarkX
      and ?t3.0 = MarkX and ?b2.0 = "board_empty[0 := Some MarkX]" and ?t4.0 = MarkO]
  from t1 len s1 r1 have c1: "secures MarkX 1 (board_tie[1 := Some MarkX]) MarkO" by blast
  from t1 r2 have c2: "\<forall>l. checkWinner (board_empty[4 := Some MarkO]) \<noteq> Win (opponent MarkX) l" by blast
  from t1 r3 have c3: "\<forall>m l. checkWinner (board_empty[0 := Some MarkX]) \<noteq> Win m l" by blast
  from h1 s1 v c1 r1 r2 c2 r3 c3 show ?thesis by blast
qed

text \<open>
  Claim C5. For every board of nine cells on which \<open>checkWinner\<close> returns \<open>InProgress\<close> (such
  a board has an empty cell) and for either searching side, \<open>bestMove\<close> returns an index
  \<open>i\<close> with \<open>0 \<le> i \<le> 8\<close> whose cell in the board is empty.
\<close>

theorem bestMove_returns_empty_cell:
  assumes "a < length s" and "length (s ! a) = 9" and "checkWinner (s ! a) = InProgress"
  shows "\<exists>i. fst (bestMove s a player) = Inr (Some i) \<and> 0 \<le> i \<and> i \<le> 8 \<and> s ! a ! i = None"
proof -
  from search_root [OF assms(2,3), of player] obtain i where
    i: "i \<in> set (frees (s ! a))" "search player (s ! a) player = Some (child player (s ! a) player i)"
    by blast
  from bestMove_search [OF assms(1,2) i(2)] have "fst (bestMove s a player) = Inr (Some i)"
    by (simp add: idx_child)
  moreover from i(1) have "i \<le> 8" "s ! a ! i = None" by (simp_all add: in_frees)
  ultimately show ?thesis by simp
qed

theorem bestMove_returns_empty_cell_witness:
  "(0::nat) < length [board_tie] \<and> length ([board_tie] ! 0) = 9 \<and>
   checkWinner ([board_tie] ! 0) = InProgress \<and>
   (\<exists>i. fst (bestMove [board_tie] 0 MarkO) = Inr (Some i) \<and> 0 \<le> i \<and> i \<le> 8 \<and>
      [board_tie] ! 0 ! i = None)"
proof -
  have h1: "0 < length [board_tie]" by simp
  have h2: "length ([board_tie] ! 0) = 9" by (simp add: board_tie_def)
  have h3: "checkWinner ([board_tie] ! 0) = InProgress"
    by (simp add: board_tie_def checkWinner_def LINES_def truthy_def)
  from bestMove_returns_empty_cell [OF h1 h2 h3, of MarkO] h1 h2 h3 show ?thesis by blast
qed

text \<open>
  Claim C4. For every board of nine cells on which \<open>checkWinner\<close> returns \<open>InProgress\<close>, the
  index \<open>i\<close> returned by \<open>bestMove\<close> is an empty cell, and the score \<open>sc\<close> that the search
  gives it is its minimax value: placing the mark of the searching side there secures a
  result \<open>k\<close> exactly when \<open>k \<le> sc\<close>. The same holds for every empty cell \<open>j\<close> and its
  score \<open>sj\<close>; every empty cell has \<open>sj \<le> sc\<close>, so it secures nothing that cell \<open>i\<close> does
  not secure, and every empty cell before \<open>i\<close> has \<open>sj < sc\<close>, so cell \<open>i\<close> secures a
  result that the earlier cell does not. So among the empty cells with the optimal
  minimax value the lowest index is returned. On the empty board that is cell 0, for
  either side.
\<close>

theorem bestMove_lowest_optimal_cell:
  assumes "a < length s" and "length (s ! a) = 9" and "checkWinner (s ! a) = InProgress"
  shows "(\<exists>i sc. fst (bestMove s a player) = Inr (Some i) \<and> i < 9 \<and> s ! a ! i = None \<and>
           cellScore player (s ! a) i = Some sc \<and>
           (\<forall>k. secures player k ((s ! a)[i := Some player]) (opponent player) \<longleftrightarrow> k \<le> sc) \<and>
           (\<forall>j<9. s ! a ! j = None \<longrightarrow>
              (\<exists>sj. cellScore player (s ! a) j = Some sj \<and>
                 (\<forall>k. secures player k ((s ! a)[j := Some player]) (opponent player) \<longleftrightarrow> k \<le> sj) \<and>
                 sj \<le> sc \<and> (j < i \<longrightarrow> sj < sc) \<and>
                 (\<forall>k. secures player k ((s ! a)[j := Some player]) (opponent player) \<longrightarrow>
                      secures player k ((s ! a)[i := Some player]) (opponent player)) \<and>
                 (j < i \<longrightarrow> (\<exists>k. secures player k ((s ! a)[i := Some player]) (opponent player) \<and>
                      \<not> secures player k ((s ! a)[j := Some player]) (opponent player)))))) \<and>
         fst (bestMove [board_empty] 0 player) = Inr (Some 0)"
proof (rule conjI)
  show "fst (bestMove [board_empty] 0 player) = Inr (Some 0)" by (rule bestMove_empty_board)
next
  let ?b = "s ! a"
  let ?v = "\<lambda>j. score (child player ?b player j)"
  from search_root [OF assms(2,3), of player] obtain i where
    i: "i \<in> set (frees ?b)" "search player ?b player = Some (child player ?b player i)"
    and best: "\<forall>j\<in>set (frees ?b). ?v j \<le> ?v i \<and> (j < i \<longrightarrow> ?v j < ?v i)"
    by blast
  from bestMove_search [OF assms(1,2) i(2)] have r: "fst (bestMove s a player) = Inr (Some i)"
    by (simp add: idx_child)
  have cs: "cellScore player ?b j = Some (?v j)" for j
    using assms(2) by (rule cellScore_child)
  have sec: "secures player k (?b[j := Some player]) (opponent player) \<longleftrightarrow> k \<le> ?v j" for j k
    using assms(2) by (rule secures_child)
  have others: "\<forall>j<9. ?b ! j = None \<longrightarrow>
      (\<exists>sj. cellScore player ?b j = Some sj \<and>
         (\<forall>k. secures player k (?b[j := Some player]) (opponent player) \<longleftrightarrow> k \<le> sj) \<and>
         sj \<le> ?v i \<and> (j < i \<longrightarrow> sj < ?v i) \<and>
         (\<forall>k. secures player k (?b[j := Some player]) (opponent player) \<longrightarrow>
              secures player k (?b[i := Some player]) (opponent player)) \<and>
         (j < i \<longrightarrow> (\<exists>k. secures player k (?b[i := Some player]) (opponent player) \<and>
              \<not> secures player k (?b[j := Some player]) (opponent player))))"
  proof (intro allI impI)
    fix j assume "j < 9" "?b ! j = None"
    then have "j \<in> set (frees ?b)" using assms(2) by (simp add: in_frees)
    with best have le: "?v j \<le> ?v i" and lt: "j < i \<longrightarrow> ?v j < ?v i" by blast+
    have mono: "\<forall>k. secures player k (?b[j := Some player]) (opponent player) \<longrightarrow>
              secures player k (?b[i := Some player]) (opponent player)"
      using le by (simp add: sec)
    have strict: "j < i \<longrightarrow> (\<exists>k. secures player k (?b[i := Some player]) (opponent player) \<and>
              \<not> secures player k (?b[j := Some player]) (opponent player))"
    proof
      assume "j < i"
      with lt have "?v j < ?v i" by simp
      then have "secures player (?v i) (?b[i := Some player]) (opponent player) \<and>
              \<not> secures player (?v i) (?b[j := Some player]) (opponent player)"
        by (simp add: sec)
      then show "\<exists>k. secures player k (?b[i := Some player]) (opponent player) \<and>
              \<not> secures player k (?b[j := Some player]) (opponent player)" ..
    qed
    show "\<exists>sj. cellScore player ?b j = Some sj \<and>
         (\<forall>k. secures player k (?b[j := Some player]) (opponent player) \<longleftrightarrow> k \<le> sj) \<and>
         sj \<le> ?v i \<and> (j < i \<longrightarrow> sj < ?v i) \<and>
         (\<forall>k. secures player k (?b[j := Some player]) (opponent player) \<longrightarrow>
              secures player k (?b[i := Some player]) (opponent player)) \<and>
         (j < i \<longrightarrow> (\<exists>k. secures player k (?b[i := Some player]) (opponent player) \<and>
              \<not> secures player k (?b[j := Some player]) (opponent player)))"
    proof (intro exI conjI)
      show "cellScore player ?b j = Some (?v j)" by (rule cs)
      show "\<forall>k. secures player k (?b[j := Some player]) (opponent player) \<longleftrightarrow> k \<le> ?v j"
        by (simp add: sec)
      show "?v j \<le> ?v i" by (rule le)
      show "j < i \<longrightarrow> ?v j < ?v i" by (rule lt)
      show "\<forall>k. secures player k (?b[j := Some player]) (opponent player) \<longrightarrow>
              secures player k (?b[i := Some player]) (opponent player)" by (rule mono)
      show "j < i \<longrightarrow> (\<exists>k. secures player k (?b[i := Some player]) (opponent player) \<and>
              \<not> secures player k (?b[j := Some player]) (opponent player))" by (rule strict)
    qed
  qed
  from i(1) have i9: "i < 9" and free: "?b ! i = None" by (simp_all add: in_frees)
  show "\<exists>i sc. fst (bestMove s a player) = Inr (Some i) \<and> i < 9 \<and> s ! a ! i = None \<and>
           cellScore player (s ! a) i = Some sc \<and>
           (\<forall>k. secures player k ((s ! a)[i := Some player]) (opponent player) \<longleftrightarrow> k \<le> sc) \<and>
           (\<forall>j<9. s ! a ! j = None \<longrightarrow>
              (\<exists>sj. cellScore player (s ! a) j = Some sj \<and>
                 (\<forall>k. secures player k ((s ! a)[j := Some player]) (opponent player) \<longleftrightarrow> k \<le> sj) \<and>
                 sj \<le> sc \<and> (j < i \<longrightarrow> sj < sc) \<and>
                 (\<forall>k. secures player k ((s ! a)[j := Some player]) (opponent player) \<longrightarrow>
                      secures player k ((s ! a)[i := Some player]) (opponent player)) \<and>
                 (j < i \<longrightarrow> (\<exists>k. secures player k ((s ! a)[i := Some player]) (opponent player) \<and>
                      \<not> secures player k ((s ! a)[j := Some player]) (opponent player)))))"
  proof (intro exI conjI)
    show "fst (bestMove s a player) = Inr (Some i)" by (rule r)
    show "i < 9" by (rule i9)
    show "?b ! i = None" by (rule free)
    show "cellScore player ?b i = Some (?v i)" by (rule cs)
    show "\<forall>k. secures player k (?b[i := Some player]) (opponent player) \<longleftrightarrow> k \<le> ?v i"
      by (simp add: sec)
    show "\<forall>j<9. ?b ! j = None \<longrightarrow>
      (\<exists>sj. cellScore player ?b j = Some sj \<and>
         (\<forall>k. secures player k (?b[j := Some player]) (opponent player) \<longleftrightarrow> k \<le> sj) \<and>
         sj \<le> ?v i \<and> (j < i \<longrightarrow> sj < ?v i) \<and>
         (\<forall>k. secures player k (?b[j := Some player]) (opponent player) \<longrightarrow>
              secures player k (?b[i := Some player]) (opponent player)) \<and>
         (j < i \<longrightarrow> (\<exists>k. secures player k (?b[i := Some player]) (opponent player) \<and>
              \<not> secures player k (?b[j := Some player]) (opponent player))))" by (rule others)
  qed
qed

theorem bestMove_lowest_optimal_cell_witness:
  "(0::nat) < length [board_tie] \<and> length ([board_tie] ! 0) = 9 \<and>
   checkWinner ([board_tie] ! 0) = InProgress \<and>
   fst (bestMove [board_tie] 0 MarkX) = Inr (Some 1) \<and>
   cellScore MarkX board_tie 0 = Some (- 1) \<and>
   cellScore MarkX board_tie 1 = Some 1 \<and>
   cellScore MarkX board_tie 5 = Some 1 \<and>
   \<not> secures MarkX 0 (board_tie[0 := Some MarkX]) MarkO \<and>
   secures MarkX 1 (board_tie[1 := Some MarkX]) MarkO \<and>
   secures MarkX 1 (board_tie[5 := Some MarkX]) MarkO \<and>
   (\<exists>i sc. fst (bestMove [board_tie] 0 MarkX) = Inr (Some i) \<and> i < 9 \<and> [board_tie] ! 0 ! i = None \<and>
      cellScore MarkX ([board_tie] ! 0) i = Some sc \<and>
      (\<forall>k. secures MarkX k (([board_tie] ! 0)[i := Some MarkX]) (opponent MarkX) \<longleftrightarrow> k \<le> sc) \<and>
      (\<forall>j<9. [board_tie] ! 0 ! j = None \<longrightarrow>
         (\<exists>sj. cellScore MarkX ([board_tie] ! 0) j = Some sj \<and>
            (\<forall>k. secures MarkX k (([board_tie] ! 0)[j := Some MarkX]) (opponent MarkX) \<longleftrightarrow> k \<le> sj) \<and>
            sj \<le> sc \<and> (j < i \<longrightarrow> sj < sc) \<and>
            (\<forall>k. secures MarkX k (([board_tie] ! 0)[j := Some MarkX]) (opponent MarkX) \<longrightarrow>
                 secures MarkX k (([board_tie] ! 0)[i := Some MarkX]) (opponent MarkX)) \<and>
            (j < i \<longrightarrow> (\<exists>k. secures MarkX k (([board_tie] ! 0)[i := Some MarkX]) (opponent MarkX) \<and>
                 \<not> secures MarkX k (([board_tie] ! 0)[j := Some MarkX]) (opponent MarkX))))))"
proof -
  have h1: "0 < length [board_tie]" by simp
  have h2: "length ([board_tie] ! 0) = 9" by (simp add: board_tie_def)
  have h3: "checkWinner ([board_tie] ! 0) = InProgress"
    by (simp add: board_tie_def checkWinner_def LINES_def truthy_def)
  have v: "fst (bestMove [board_tie] 0 MarkX) = Inr (Some 1)" by code_simp
  have c0: "cellScore MarkX board_tie 0 = Some (- 1)" by code_simp
  have c1: "cellScore MarkX board_tie 1 = Some 1" by code_simp
  have c5: "cellScore MarkX board_tie 5 = Some 1" by code_simp
  have s0: "\<not> secures MarkX 0 (board_tie[0 := Some MarkX]) MarkO" by code_simp
  have s1: "secures MarkX 1 (board_tie[1 := Some MarkX]) MarkO" by code_simp
  have s5: "secures MarkX 1 (board_tie[5 := Some MarkX]) MarkO" by code_simp
  note big = conjunct1 [OF bestMove_lowest_optimal_cell [OF h1 h2 h3, of MarkX]]
  from h1 h2 h3 v c0 c1 c5 s0 s1 s5 big show ?thesis by (intro conjI) assumption+
qed

text \<open>
  Claim C6, as the code has it. On a board of nine cells that is finished (\<open>checkWinner\<close>
  gives a \<open>Win\<close> or \<open>Draw\<close>) or has no empty cell, \<open>bestMove\<close> raises no error: it
  returns \<^verbatim>\<open>undefined\<close> (no index) and leaves the store as it was, with the working copy
  added. There is no \<^verbatim>\<open>InvalidState\<close> failure.
\<close>

theorem bestMove_finished_board_undefined:
  assumes "a < length s" and "length (s ! a) = 9"
    and "checkWinner (s ! a) \<noteq> InProgress \<or> list_all truthy (s ! a)"
  shows "bestMove s a player = (Inr None, s @ [s ! a])"
proof -
  from assms(3) have "checkWinner (s ! a) \<noteq> InProgress"
    using full_board_terminal by blast
  then obtain sc where "search player (s ! a) player = Some (Res None sc)"
    using search_terminal by blast
  from bestMove_search [OF assms(1,2) this] show ?thesis by simp
qed

theorem bestMove_finished_board_undefined_witness:
  "(0::nat) < length [board_full] \<and> length ([board_full] ! 0) = 9 \<and>
   list_all truthy ([board_full] ! 0) \<and> checkWinner ([board_full] ! 0) = Draw \<and>
   bestMove [board_full] 0 MarkO = (Inr None, [board_full] @ [[board_full] ! 0])"
proof -
  have h1: "0 < length [board_full]" by simp
  have h2: "length ([board_full] ! 0) = 9" by (simp add: board_full_def)
  have h3: "list_all truthy ([board_full] ! 0)" by (simp add: board_full_def truthy_def)
  have h4: "checkWinner ([board_full] ! 0) = Draw"
    by (simp add: board_full_def checkWinner_def LINES_def truthy_def)
  from h3 have "checkWinner ([board_full] ! 0) \<noteq> InProgress \<or> list_all truthy ([board_full] ! 0)" ..
  from bestMove_finished_board_undefined [OF h1 h2 this, of MarkO] h1 h2 h3 h4
  show ?thesis by blast
qed

theorem bestMove_finished_board_counterexample:
  "checkWinner board_won = Win MarkX [0, 1, 2] \<and>
   fst (bestMove [board_won] 0 MarkX) = Inr None \<and>
   fst (bestMove [board_won] 0 MarkX) \<noteq> Inl TypeError \<and>
   fst (bestMove [board_won] 0 MarkX) \<noteq> Inl OutOfFuel"
  by code_simp

text \<open>
  Claim C8. On the board with the mark of \<open>A\<close> at index 0, the mark of \<open>B\<close> at indices 3
  and 4 and every other cell empty, with \<open>A\<close> the searching side: no empty cell gives \<open>A\<close>
  a win at once, \<open>B\<close> would win by playing index 5, and \<open>bestMove\<close> returns index 5. This
  holds for \<open>A\<close> the mark \<^verbatim>\<open>"X"\<close> and for \<open>A\<close> the mark \<^verbatim>\<open>"O"\<close>.
\<close>

theorem bestMove_blocks_threat:
  "fst (bestMove [board_threat MarkX] 0 MarkX) = Inr (Some 5) \<and>
   fst (bestMove [board_threat MarkO] 0 MarkO) = Inr (Some 5) \<and>
   list_all (\<lambda>i. winnerCheck ((board_threat MarkX)[i := Some MarkX]) \<noteq> Mark MarkX) (frees (board_threat MarkX)) \<and>
   list_all (\<lambda>i. winnerCheck ((board_threat MarkO)[i := Some MarkO]) \<noteq> Mark MarkO) (frees (board_threat MarkO)) \<and>
   checkWinner ((board_threat MarkX)[5 := Some MarkO]) = Win MarkO [3, 4, 5] \<and>
   checkWinner ((board_threat MarkO)[5 := Some MarkX]) = Win MarkX [3, 4, 5]"
proof -
  have "fst (bestMove [board_threat MarkX] 0 MarkX) = Inr (Some 5)" by code_simp
  moreover have "fst (bestMove [board_threat MarkO] 0 MarkO) = Inr (Some 5)" by code_simp
  moreover have "list_all (\<lambda>i. winnerCheck ((board_threat MarkX)[i := Some MarkX]) \<noteq> Mark MarkX)
      (frees (board_threat MarkX))" by code_simp
  moreover have "list_all (\<lambda>i. winnerCheck ((board_threat MarkO)[i := Some MarkO]) \<noteq> Mark MarkO)
      (frees (board_threat MarkO))" by code_simp
  moreover have "checkWinner ((board_threat MarkX)[5 := Some MarkO]) = Win MarkO [3, 4, 5]" by code_simp
  moreover have "checkWinner ((board_threat MarkO)[5 := Some MarkX]) = Win MarkX [3, 4, 5]" by code_simp
  ultimately show ?thesis by blast
qed

text \<open>
  Claim C7. For every store, every board of nine cells in it and either searching side:
  after \<open>bestMove\<close> the store holds the arrays it held before, unchanged (so the caller's
  board has the same nine cells), followed by the working copy, which is equal to the
  caller's board again. Within the search, \<open>minimax\<close> returns the store exactly as it was
  given, and the loop, once it has searched below an empty cell \<open>i\<close> and set the cell back to
  \<^verbatim>\<open>null\<close>, goes on to cell \<open>i + 1\<close> with the store it had before cell \<open>i\<close>.
\<close>

theorem search_restores_board:
  "(a < length s \<and> length (s ! a) = 9 \<longrightarrow>
      snd (bestMove s a player) = s @ [s ! a] \<and> snd (bestMove s a player) ! a = s ! a \<and>
      take (length s) (snd (bestMove s a player)) = s) \<and>
   (bd < length s \<and> length (s ! bd) = 9 \<and> empties (s ! bd) < n \<longrightarrow>
      snd (minimax n player s bd turn) = s) \<and>
   (bd < length s \<and> length (s ! bd) = 9 \<and> empties (s ! bd) \<le> n \<and> i < 9 \<and> s ! bd ! i = None \<longrightarrow>
      snd (minimax n player (s[bd := (s ! bd)[i := Some turn]]) bd (if turn = player then opponent player else player))
        = s[bd := (s ! bd)[i := Some turn]] \<and>
      (s[bd := (s ! bd)[i := Some turn]])[bd := (s[bd := (s ! bd)[i := Some turn]] ! bd)[i := None]] = s \<and>
      (\<exists>sc. explore n player s bd turn i scores =
             explore n player s bd turn (Suc i) (scores @ [Res (Some i) sc])))"
proof (intro conjI impI)
  assume h: "a < length s \<and> length (s ! a) = 9"
  then obtain r where "search player (s ! a) player = Some r" using search_Some by blast
  with h have "bestMove s a player = (Inr (idx r), s @ [s ! a])" by (simp add: bestMove_search)
  then show "snd (bestMove s a player) = s @ [s ! a]" by simp
  with h show "snd (bestMove s a player) ! a = s ! a" by (simp add: nth_append)
  from \<open>snd (bestMove s a player) = s @ [s ! a]\<close>
  show "take (length s) (snd (bestMove s a player)) = s" by simp
next
  assume "bd < length s \<and> length (s ! bd) = 9 \<and> empties (s ! bd) < n"
  then show "snd (minimax n player s bd turn) = s" by (simp add: minimax_refines)
next
  assume h: "bd < length s \<and> length (s ! bd) = 9 \<and> empties (s ! bd) \<le> n \<and> i < 9 \<and> s ! bd ! i = None"
  let ?s1 = "s[bd := (s ! bd)[i := Some turn]]"
  have b1: "?s1 ! bd = (s ! bd)[i := Some turn]" using h by simp
  have "empties ((s ! bd)[i := Some turn]) < empties (s ! bd)"
    using h by (simp add: empties_update)
  with h b1 show "snd (minimax n player ?s1 bd (if turn = player then opponent player else player)) = ?s1"
    by (simp add: minimax_refines)
  have "(s ! bd)[i := None] = s ! bd" using h by (metis list_update_id)
  then show "?s1[bd := (?s1 ! bd)[i := None]] = s" using h by (simp add: b1)
  from h show "\<exists>sc. explore n player s bd turn i scores =
             explore n player s bd turn (Suc i) (scores @ [Res (Some i) sc])"
    by (simp add: explore_step)
qed

theorem search_restores_board_witness:
  "((0::nat) < length [board_tie] \<and> length ([board_tie] ! 0) = 9) \<and>
   empties ([board_tie] ! 0) < 4 \<and> (0::nat) < 9 \<and> [board_tie] ! 0 ! 0 = None \<and>
   snd (bestMove [board_tie] 0 MarkX) = [board_tie, board_tie] \<and>
   snd (minimax 4 MarkX [board_tie] 0 MarkX) = [board_tie] \<and>
   (\<exists>sc. explore 4 MarkX [board_tie] 0 MarkX 0 [] =
          explore 4 MarkX [board_tie] 0 MarkX (Suc 0) ([] @ [Res (Some 0) sc]))"
proof -
  have h1: "0 < length [board_tie] \<and> length ([board_tie] ! 0) = 9" by (simp add: board_tie_def)
  have h2: "empties ([board_tie] ! 0) < 4" by (simp add: board_tie_def empties_def)
  have h3: "[board_tie] ! 0 ! 0 = None" by (simp add: board_tie_def)
  from h1 h2 have h4: "0 < length [board_tie] \<and> length ([board_tie] ! 0) = 9 \<and> empties ([board_tie] ! 0) < 4"
    by simp
  from h1 h2 h3 have h5: "0 < length [board_tie] \<and> length ([board_tie] ! 0) = 9 \<and>
      empties ([board_tie] ! 0) \<le> 4 \<and> (0::nat) < 9 \<and> [board_tie] ! 0 ! 0 = None" by simp
  note t = search_restores_board [of 0 "[board_tie]" MarkX 0 4 MarkX 0 "[]"]
  from t h1 have "snd (bestMove [board_tie] 0 MarkX) = [board_tie] @ [[board_tie] ! 0]" by blast
  then have c1: "snd (bestMove [board_tie] 0 MarkX) = [board_tie, board_tie]" by simp
  from t h4 have c2: "snd (minimax 4 MarkX [board_tie] 0 MarkX) = [board_tie]" by blast
  from t h5 have c3: "\<exists>sc. explore 4 MarkX [board_tie] 0 MarkX 0 [] =
          explore 4 MarkX [board_tie] 0 MarkX (Suc 0) ([] @ [Res (Some 0) sc])" by blast
  have h0: "(0::nat) < 9" by simp
  from h0 h1 h2 h3 c1 c2 c3 show ?thesis by blast
qed

text \<open>
  Claim C9. \<open>checkWinner\<close> returns a verdict for every board: \<open>Draw\<close>, \<open>InProgress\<close>, or a
  \<open>Win\<close> along one of the eight lines. For every board of nine cells the search returns
  without running out of depth as soon as it is allowed more nested calls than the board
  has empty cells (the call on the board itself and one level for each mark placed below
  it), with the same result as with exactly one call more than that number; a board has at
  most nine empty cells, so the ten calls that \<open>bestMove\<close> allows always suffice and
  \<open>bestMove\<close> returns on every board of nine cells.
\<close>

theorem evaluator_and_search_return:
  "(checkWinner board = Draw \<or> checkWinner board = InProgress \<or>
      (\<exists>m. \<exists>l\<in>set LINES. checkWinner board = Win m (line_cells l))) \<and>
   (bd < length s \<and> length (s ! bd) = 9 \<and> empties (s ! bd) < n \<longrightarrow>
      (\<exists>r. minimax n player s bd turn = (Inr (Some r), s)) \<and>
      minimax n player s bd turn = minimax (Suc (empties (s ! bd))) player s bd turn) \<and>
   (length (s ! bd) = 9 \<longrightarrow> empties (s ! bd) \<le> 9) \<and>
   (bd < length s \<and> length (s ! bd) = 9 \<longrightarrow>
      (\<exists>r. bestMove s bd player = (Inr r, s @ [s ! bd])))"
proof (intro conjI impI)
  have "\<And>ls. set ls \<subseteq> set LINES \<Longrightarrow> checkWinner_from ls board = Draw \<or> checkWinner_from ls board = InProgress \<or>
      (\<exists>m. \<exists>l\<in>set LINES. checkWinner_from ls board = Win m (line_cells l))"
  proof -
    fix ls show "set ls \<subseteq> set LINES \<Longrightarrow> checkWinner_from ls board = Draw \<or> checkWinner_from ls board = InProgress \<or>
      (\<exists>m. \<exists>l\<in>set LINES. checkWinner_from ls board = Win m (line_cells l))"
    proof (induction ls)
      case Nil
      then show ?case by simp
    next
      case (Cons l ls)
      obtain x y z where l: "l = (x, y, z)" by (cases l) auto
      from Cons.prems have mem: "(x, y, z) \<in> set LINES" and sub: "set ls \<subseteq> set LINES"
        using l by auto
      show ?case
      proof (cases "truthy (board ! x) \<and> board ! x = board ! y \<and> board ! x = board ! z")
        case True
        then obtain m where m: "board ! x = Some m" by (auto simp: truthy_def)
        have "checkWinner_from ((x, y, z) # ls) board =
            (case board ! x of Some m \<Rightarrow> Win m [x, y, z] | None \<Rightarrow> checkWinner_from ls board)"
          by (subst checkWinner_from.simps) (rule if_P [OF True])
        then have "checkWinner_from (l # ls) board = Win m (line_cells (x, y, z))"
          using l m by simp
        with mem show ?thesis by blast
      next
        case False
        then have "checkWinner_from ((x, y, z) # ls) board = checkWinner_from ls board"
          by (subst checkWinner_from.simps) (rule if_not_P)
        with Cons.IH [OF sub] l show ?thesis by simp
      qed
    qed
  qed
  from this [of LINES]
  show "checkWinner board = Draw \<or> checkWinner board = InProgress \<or>
      (\<exists>m. \<exists>l\<in>set LINES. checkWinner board = Win m (line_cells l))"
    by (simp add: checkWinner_def)
next
  assume h: "bd < length s \<and> length (s ! bd) = 9 \<and> empties (s ! bd) < n"
  then obtain r where r: "search player (s ! bd) turn = Some r" using search_Some by blast
  from h have m: "minimax n player s bd turn = (Inr (search player (s ! bd) turn), s)"
    by (simp add: minimax_refines)
  with r show "\<exists>r. minimax n player s bd turn = (Inr (Some r), s)" by simp
  from h have "minimax (Suc (empties (s ! bd))) player s bd turn = (Inr (search player (s ! bd) turn), s)"
    by (simp add: minimax_refines)
  with m show "minimax n player s bd turn = minimax (Suc (empties (s ! bd))) player s bd turn"
    by simp
next
  assume "length (s ! bd) = 9"
  then show "empties (s ! bd) \<le> 9" using empties_le [of "s ! bd"] by simp
next
  assume h: "bd < length s \<and> length (s ! bd) = 9"
  then obtain r where "search player (s ! bd) player = Some r" using search_Some by blast
  with h have "bestMove s bd player = (Inr (idx r), s @ [s ! bd])" by (simp add: bestMove_search)
  then show "\<exists>r. bestMove s bd player = (Inr r, s @ [s ! bd])" by blast
qed

theorem evaluator_and_search_return_witness:
  "((0::nat) < length [board_tie] \<and> length ([board_tie] ! 0) = 9 \<and> empties ([board_tie] ! 0) < 7) \<and>
   empties ([board_tie] ! 0) = 3 \<and>
   minimax 7 MarkO [board_tie] 0 MarkX = minimax (Suc (empties ([board_tie] ! 0))) MarkO [board_tie] 0 MarkX \<and>
   minimax 7 MarkO [board_tie] 0 MarkX = (Inr (Some (Res (Some 1) (- 1))), [board_tie]) \<and>
   (\<exists>r. bestMove [board_tie] 0 MarkO = (Inr r, [board_tie] @ [[board_tie] ! 0]))"
proof -
  have e: "empties ([board_tie] ! 0) = 3" by (simp add: board_tie_def empties_def)
  have h: "0 < length [board_tie] \<and> length ([board_tie] ! 0) = 9 \<and> empties ([board_tie] ! 0) < 7"
    by (simp add: board_tie_def empties_def)
  then have h': "0 < length [board_tie] \<and> length ([board_tie] ! 0) = 9" by simp
  note t = evaluator_and_search_return [of board_tie 0 "[board_tie]" 7 MarkO MarkX]
  from t h have c1: "minimax 7 MarkO [board_tie] 0 MarkX =
      minimax (Suc (empties ([board_tie] ! 0))) MarkO [board_tie] 0 MarkX" by blast
  have c2: "minimax 7 MarkO [board_tie] 0 MarkX = (Inr (Some (Res (Some 1) (- 1))), [board_tie])"
    by code_simp
  from t h' have c3: "\<exists>r. bestMove [board_tie] 0 MarkO = (Inr r, [board_tie] @ [[board_tie] ! 0])" by blast
  from h e c1 c2 c3 show ?thesis by blast
qed

text \<open>
  Claim C10. In every call of the search on a board of nine cells that the inner
  \<open>winnerCheck\<close> leaves undecided, at least one cell is empty, the loop returns a list of
  scores that is not empty, and both selections (the maximum and the minimum, each starting
  from the first collected score) return one of the collected scores, never \<^verbatim>\<open>undefined\<close>.
\<close>

theorem collected_scores_nonempty:
  assumes "bd < length s" and "length (s ! bd) = 9" and "winnerCheck (s ! bd) = Null"
    and "empties (s ! bd) \<le> n"
  shows "(\<exists>i<9. s ! bd ! i = None) \<and>
         (\<exists>scores. explore n player s bd turn 0 [] = (Inr scores, s) \<and> scores \<noteq> [] \<and>
            (\<exists>r\<in>set scores. maximize scores = Some r) \<and> (\<exists>r\<in>set scores. minimize scores = Some r)) \<and>
         (\<exists>r. fst (minimax (Suc n) player s bd turn) = Inr (Some r))"
proof (intro conjI)
  let ?b = "s ! bd"
  let ?rs = "map (child player ?b turn) (frees ?b)"
  from assms(2,3) have ne: "frees ?b \<noteq> []" by (simp add: winnerCheck_Null_free)
  then obtain i where "i \<in> set (frees ?b)" by (cases "frees ?b") auto
  then show "\<exists>i<9. ?b ! i = None" by (auto simp: in_frees)
  have ex: "explore n player s bd turn 0 [] = (Inr ?rs, s)"
    using assms(1,2,4) by (rule explore_all)
  have rne: "?rs \<noteq> []" using ne by simp
  from maximize_first [OF rne] obtain k where "k < length ?rs" "maximize ?rs = Some (?rs ! k)"
    by blast
  then have mx: "\<exists>r\<in>set ?rs. maximize ?rs = Some r" by (metis nth_mem)
  from minimize_least [OF rne] have mn: "\<exists>r\<in>set ?rs. minimize ?rs = Some r" by blast
  from ex rne mx mn
  show "\<exists>scores. explore n player s bd turn 0 [] = (Inr scores, s) \<and> scores \<noteq> [] \<and>
      (\<exists>r\<in>set scores. maximize scores = Some r) \<and> (\<exists>r\<in>set scores. minimize scores = Some r)"
    by blast
  from assms have "minimax (Suc n) player s bd turn = (Inr (search player ?b turn), s)"
    by (simp add: minimax_refines)
  moreover obtain r where "search player ?b turn = Some r"
    using search_Some [OF assms(2)] by blast
  ultimately show "\<exists>r. fst (minimax (Suc n) player s bd turn) = Inr (Some r)" by simp
qed

theorem collected_scores_nonempty_witness:
  "(0::nat) < length [board_tie] \<and> length ([board_tie] ! 0) = 9 \<and> winnerCheck ([board_tie] ! 0) = Null \<and>
   empties ([board_tie] ! 0) \<le> 3 \<and>
   explore 3 MarkX [board_tie] 0 MarkX 0 [] =
     (Inr [Res (Some 0) (- 1), Res (Some 1) 1, Res (Some 5) 1], [board_tie]) \<and>
   (\<exists>scores. explore 3 MarkX [board_tie] 0 MarkX 0 [] = (Inr scores, [board_tie]) \<and> scores \<noteq> [] \<and>
      (\<exists>r\<in>set scores. maximize scores = Some r) \<and> (\<exists>r\<in>set scores. minimize scores = Some r))"
proof -
  have h1: "0 < length [board_tie]" by simp
  have h2: "length ([board_tie] ! 0) = 9" by (simp add: board_tie_def)
  have h3: "winnerCheck ([board_tie] ! 0) = Null"
    by (simp add: board_tie_def winnerCheck_def LINES_def truthy_def)
  have h4: "empties ([board_tie] ! 0) \<le> 3" by (simp add: board_tie_def empties_def)
  have v: "explore 3 MarkX [board_tie] 0 MarkX 0 [] =
     (Inr [Res (Some 0) (- 1), Res (Some 1) 1, Res (Some 5) 1], [board_tie])" by code_simp
  from collected_scores_nonempty [OF h1 h2 h3 h4, of MarkX MarkX] h1 h2 h3 h4 v
  show ?thesis by blast
qed

end
